theory Spec2Isabelle
  imports Complex_Main "HOL-Library.Char_ord" "HOL-Library.List_Lexorder" "HOL-Library.Monad_Syntax"
begin

section \<open>Python strings\<close>

text \<open>
  A Python \<open>str\<close> is modelled as a \<open>string\<close>, one \<open>char\<close> per code point; the
  model covers the code points below 256. On these, \<open>str.lower\<close> maps \<open>A\<close>--\<open>Z\<close> and
  the capital letters 192--222 (without the multiplication sign 215) 32 places up,
  \<open>str.isspace\<close> holds of 9--13, 28--32, 133 and 160, and a case-insensitive regular
  expression matches two characters exactly when their lower-case forms agree.
\<close>

definition lower_char :: "char \<Rightarrow> char" where
  "lower_char c =
     (let n = (of_char c :: nat)
      in if (65 \<le> n \<and> n \<le> 90) \<or> (192 \<le> n \<and> n \<le> 222 \<and> n \<noteq> 215)
         then char_of (n + 32) else c)"

definition py_lower :: "string \<Rightarrow> string" where
  "py_lower s = map lower_char s"

definition is_space :: "char \<Rightarrow> bool" where
  "is_space c =
     (let n = (of_char c :: nat)
      in (9 \<le> n \<and> n \<le> 13) \<or> (28 \<le> n \<and> n \<le> 32) \<or> n = 133 \<or> n = 160)"

text \<open>\<open>s.rstrip(cs)\<close> and \<open>s.lstrip(cs)\<close>, the character set given as a predicate.\<close>

definition py_rstrip :: "(char \<Rightarrow> bool) \<Rightarrow> string \<Rightarrow> string" where
  "py_rstrip P s = rev (dropWhile P (rev s))"

definition py_lstrip :: "(char \<Rightarrow> bool) \<Rightarrow> string \<Rightarrow> string" where
  "py_lstrip P s = dropWhile P s"

definition rstrip_slash :: "string \<Rightarrow> string" where
  "rstrip_slash s = py_rstrip (\<lambda>c. c = CHR ''/'') s"

text \<open>\<open>s.strip()\<close> removes white space at both ends.\<close>

definition py_strip :: "string \<Rightarrow> string" where
  "py_strip s = py_rstrip is_space (py_lstrip is_space s)"

text \<open>\<open>s.split()\<close>: the maximal runs of characters that are not white space.\<close>

fun split_ws :: "string \<Rightarrow> string \<Rightarrow> string list" where
  "split_ws cur [] = (if cur = [] then [] else [cur])"
| "split_ws cur (c # cs) =
     (if is_space c then (if cur = [] then split_ws [] cs else cur # split_ws [] cs)
      else split_ws (cur @ [c]) cs)"

definition py_split :: "string \<Rightarrow> string list" where
  "py_split s = split_ws [] s"

text \<open>\<open>sep.join(xs)\<close>.\<close>

fun py_join :: "string \<Rightarrow> string list \<Rightarrow> string" where
  "py_join sep [] = []"
| "py_join sep [x] = x"
| "py_join sep (x # y # ys) = x @ sep @ py_join sep (y # ys)"

text \<open>\<open>p in s\<close> for strings: \<open>p\<close> occurs in \<open>s\<close> as a contiguous piece.\<close>

fun starts_with :: "string \<Rightarrow> string \<Rightarrow> bool" where
  "starts_with s [] = True"
| "starts_with [] (p # ps) = False"
| "starts_with (c # cs) (p # ps) = (c = p \<and> starts_with cs ps)"

fun py_in :: "string \<Rightarrow> string \<Rightarrow> bool" where
  "py_in p [] = (p = [])"
| "py_in p (c # cs) = (starts_with (c # cs) p \<or> py_in p cs)"

text \<open>
  \<open>s.split(c, 1)\<close> where \<open>c\<close> occurs in \<open>s\<close>, and \<open>s.partition(c)\<close>: the text before the
  first \<open>c\<close> and the text after it.
\<close>

definition before_first :: "char \<Rightarrow> string \<Rightarrow> string" where
  "before_first c s = takeWhile (\<lambda>x. x \<noteq> c) s"

definition after_first :: "char \<Rightarrow> string \<Rightarrow> string" where
  "after_first c s = drop 1 (dropWhile (\<lambda>x. x \<noteq> c) s)"

text \<open>
  Slicing \<open>s[a:b]\<close> with Python's rule for the bounds: a negative bound counts from the
  end, and both are cut to the range of the string.
\<close>

definition slice_bound :: "nat \<Rightarrow> int \<Rightarrow> nat" where
  "slice_bound n i = (if i < 0 then nat (max 0 (i + int n)) else min (nat i) n)"

definition py_slice :: "'a list \<Rightarrow> int \<Rightarrow> int \<Rightarrow> 'a list" where
  "py_slice s a b =
     (let lo = slice_bound (length s) a; hi = slice_bound (length s) b
      in take (hi - lo) (drop lo s))"

section \<open>The URL parser of the standard library\<close>

text \<open>
  \<open>urllib.parse.urlparse\<close> as of CPython 3.11/3.12. It raises \<open>ValueError\<close> on a network
  location with unbalanced square brackets and on a bracketed host that is neither an
  IPv6 nor an IPvFuture address; the model returns \<open>None\<close> then. The check of the bracketed
  host belongs to the \<open>ipaddress\<close> module and is the parameter \<open>host_ok\<close>. The
  normalisation check of the network location never fails on code points below 256.
\<close>

record parse_result =
  scheme :: string
  netloc :: string
  path :: string
  params :: string
  query :: string
  fragment :: string

definition c0_or_space :: "char \<Rightarrow> bool" where
  "c0_or_space c = ((of_char c :: nat) \<le> 32)"

definition unsafe_char :: "char \<Rightarrow> bool" where
  "unsafe_char c = (c = CHR 0x09 \<or> c = CHR 0x0D \<or> c = CHR 0x0A)"

definition ascii_alpha :: "char \<Rightarrow> bool" where
  "ascii_alpha c =
     (let n = (of_char c :: nat) in (65 \<le> n \<and> n \<le> 90) \<or> (97 \<le> n \<and> n \<le> 122))"

definition scheme_char :: "char \<Rightarrow> bool" where
  "scheme_char c =
     (let n = (of_char c :: nat)
      in ascii_alpha c \<or> (48 \<le> n \<and> n \<le> 57) \<or> c = CHR ''+'' \<or> c = CHR ''-'' \<or> c = CHR ''.'')"

text \<open>
  The scheme is the text before the first colon, when that text is not empty, starts
  with a letter and holds scheme characters only.
\<close>

definition split_scheme :: "string \<Rightarrow> string \<times> string" where
  "split_scheme url =
     (let pre = before_first CHR '':'' url
      in if CHR '':'' \<in> set url \<and> pre \<noteq> [] \<and> ascii_alpha (hd url) \<and> list_all scheme_char pre
         then (py_lower pre, after_first CHR '':'' url)
         else ([], url))"

definition netloc_delim :: "char \<Rightarrow> bool" where
  "netloc_delim c = (c = CHR ''/'' \<or> c = CHR ''?'' \<or> c = CHR ''#'')"

definition splitnetloc :: "string \<Rightarrow> string \<times> string" where
  "splitnetloc url =
     (takeWhile (\<lambda>c. \<not> netloc_delim c) (drop 2 url),
      dropWhile (\<lambda>c. \<not> netloc_delim c) (drop 2 url))"

definition bracketed_host :: "string \<Rightarrow> string" where
  "bracketed_host nl = before_first CHR '']'' (after_first CHR ''['' nl)"

definition netloc_valid :: "(string \<Rightarrow> bool) \<Rightarrow> string \<Rightarrow> bool" where
  "netloc_valid host_ok nl =
     (if CHR ''['' \<in> set nl \<and> CHR '']'' \<notin> set nl then False
      else if CHR '']'' \<in> set nl \<and> CHR ''['' \<notin> set nl then False
      else if CHR ''['' \<in> set nl \<and> CHR '']'' \<in> set nl then host_ok (bracketed_host nl)
      else True)"

record split_result =
  s_scheme :: string
  s_netloc :: string
  s_path :: string
  s_query :: string
  s_fragment :: string

definition split_fragment :: "string \<Rightarrow> string \<times> string" where
  "split_fragment url =
     (if CHR ''#'' \<in> set url then (before_first CHR ''#'' url, after_first CHR ''#'' url)
      else (url, []))"

definition split_query :: "string \<Rightarrow> string \<times> string" where
  "split_query url =
     (if CHR ''?'' \<in> set url then (before_first CHR ''?'' url, after_first CHR ''?'' url)
      else (url, []))"

text \<open>The end of \<open>urlsplit\<close>: fragment and query are cut off what follows the network location.\<close>

definition split_rest :: "string \<Rightarrow> string \<Rightarrow> string \<Rightarrow> split_result" where
  "split_rest sch nl url =
     (let (url1, frag) = split_fragment url;
          (url2, q) = split_query url1
      in \<lparr>s_scheme = sch, s_netloc = nl, s_path = url2, s_query = q, s_fragment = frag\<rparr>)"

definition urlsplit :: "(string \<Rightarrow> bool) \<Rightarrow> string \<Rightarrow> split_result option" where
  "urlsplit host_ok url0 =
     (let url1 = filter (\<lambda>c. \<not> unsafe_char c) (py_lstrip c0_or_space url0);
          (sch, url2) = split_scheme url1
      in if take 2 url2 = ''//''
         then (let (nl, url3) = splitnetloc url2
               in if \<not> netloc_valid host_ok nl then None
                  else Some (split_rest sch nl url3))
         else Some (split_rest sch [] url2))"

definition uses_params :: "string list" where
  "uses_params = ['''', ''ftp'', ''hdl'', ''prospero'', ''http'', ''imap'', ''https'', ''shttp'',
     ''rtsp'', ''rtsps'', ''rtspu'', ''sip'', ''sips'', ''mms'', ''sftp'', ''tel'']"

text \<open>
  The parameters are what follows the first semicolon of the last path segment.
\<close>

definition last_segment :: "string \<Rightarrow> string" where
  "last_segment url = rev (takeWhile (\<lambda>c. c \<noteq> CHR ''/'') (rev url))"

definition splitparams :: "string \<Rightarrow> string \<times> string" where
  "splitparams url =
     (if CHR ''/'' \<in> set url
      then (let seg = last_segment url; pre = take (length url - length seg) url
            in if CHR '';'' \<notin> set seg then (url, [])
               else (pre @ before_first CHR '';'' seg, after_first CHR '';'' seg))
      else (before_first CHR '';'' url, after_first CHR '';'' url))"

definition urlparse :: "(string \<Rightarrow> bool) \<Rightarrow> string \<Rightarrow> parse_result option" where
  "urlparse host_ok url =
     (case urlsplit host_ok url of
        None \<Rightarrow> None
      | Some r \<Rightarrow>
          let (p, prm) = (if s_scheme r \<in> set uses_params \<and> CHR '';'' \<in> set (s_path r)
                          then splitparams (s_path r) else (s_path r, []))
          in Some \<lparr>scheme = s_scheme r, netloc = s_netloc r, path = p, params = prm,
                    query = s_query r, fragment = s_fragment r\<rparr>)"

section \<open>The cache canonicalizer\<close>

text \<open>\<open>WebScraper.normalize_url_for_cache\<close>.\<close>

definition normalize_url_for_cache :: "(string \<Rightarrow> bool) \<Rightarrow> string \<Rightarrow> string" where
  "normalize_url_for_cache host_ok url =
     (if url = [] then []
      else case urlparse host_ok url of
        None \<Rightarrow> rstrip_slash (py_lower url)
      | Some parsed \<Rightarrow>
          let scheme0 = (if scheme parsed \<noteq> [] then py_lower (scheme parsed) else ''https'');
              scheme1 = (if scheme0 \<notin> set [''http'', ''https''] then ''https'' else scheme0);
              netloc1 = (if netloc parsed \<noteq> [] then py_lower (netloc parsed) else []);
              path1 = (if path parsed \<noteq> ''/'' then rstrip_slash (path parsed) else ''/'');
              normalized = scheme1 @ ''://'' @ netloc1 @ path1
          in if query parsed \<noteq> [] then normalized @ ''?'' @ query parsed else normalized)"

section \<open>Pages\<close>

text \<open>
  A page dictionary as \<open>scrape_page\<close> builds it. The key \<open>source\<close> is added later by
  \<open>scrape_school_urls\<close>; \<open>None\<close> stands for a dictionary without that key.
\<close>

record page =
  pg_url :: string
  pg_text :: string
  pg_links :: "string list"
  pg_status_code :: int
  pg_content_length :: int
  pg_source :: "string option"

section \<open>The URL cache\<close>

text \<open>
  \<open>URLCache\<close>: the dictionary \<open>_cache\<close> from canonical keys to entries and the optional
  normalizer. The lock is not modelled: every operation is one atomic step.
  \<open>datetime.now().isoformat()\<close> is the argument \<open>now\<close>.
\<close>

record cache_entry =
  ce_pages :: "page list"
  ce_scraped_at :: string
  ce_schools :: "string set"

record url_cache =
  uc_cache :: "string \<rightharpoonup> cache_entry"
  uc_normalizer :: "(string \<Rightarrow> string) option"

definition URLCache_init :: url_cache where
  "URLCache_init = \<lparr>uc_cache = Map.empty, uc_normalizer = None\<rparr>"

definition set_normalizer :: "url_cache \<Rightarrow> (string \<Rightarrow> string) \<Rightarrow> url_cache" where
  "set_normalizer c f = c\<lparr>uc_normalizer := Some f\<rparr>"

definition normalize_key :: "(string \<Rightarrow> bool) \<Rightarrow> url_cache \<Rightarrow> string \<Rightarrow> string" where
  "normalize_key host_ok c url =
     (case uc_normalizer c of
        Some f \<Rightarrow> f url
      | None \<Rightarrow>
          (case urlparse host_ok (rstrip_slash (py_lower url)) of
             Some parsed \<Rightarrow> scheme parsed @ ''://'' @ netloc parsed @ rstrip_slash (path parsed)
           | None \<Rightarrow> rstrip_slash (py_lower url)))"

definition URLCache_get :: "(string \<Rightarrow> bool) \<Rightarrow> url_cache \<Rightarrow> string \<Rightarrow> page list option" where
  "URLCache_get host_ok c url =
     (let key = normalize_key host_ok c url
      in case uc_cache c key of Some entry \<Rightarrow> Some (ce_pages entry) | None \<Rightarrow> None)"

text \<open>\<open>if school_id:\<close> holds of a string that is present and not empty.\<close>

definition truthy_str :: "string option \<Rightarrow> bool" where
  "truthy_str s = (case s of None \<Rightarrow> False | Some x \<Rightarrow> x \<noteq> [])"

definition URLCache_set ::
  "(string \<Rightarrow> bool) \<Rightarrow> url_cache \<Rightarrow> string \<Rightarrow> page list \<Rightarrow> string option \<Rightarrow> string \<Rightarrow> url_cache" where
  "URLCache_set host_ok c url pages school_id now =
     (let key = normalize_key host_ok c url;
          m1 = (if key \<notin> dom (uc_cache c)
                then (uc_cache c)(key \<mapsto> \<lparr>ce_pages = pages, ce_scraped_at = now, ce_schools = {}\<rparr>)
                else uc_cache c);
          m2 = (if truthy_str school_id
                then (case m1 key of
                        Some entry \<Rightarrow> m1(key \<mapsto> entry\<lparr>ce_schools := insert (the school_id) (ce_schools entry)\<rparr>)
                      | None \<Rightarrow> m1)
                else m1)
      in c\<lparr>uc_cache := m2\<rparr>)"

definition get_schools_for_url :: "(string \<Rightarrow> bool) \<Rightarrow> url_cache \<Rightarrow> string \<Rightarrow> string set" where
  "get_schools_for_url host_ok c url =
     (case uc_cache c (normalize_key host_ok c url) of Some entry \<Rightarrow> ce_schools entry | None \<Rightarrow> {})"

text \<open>A page and two caches used where a theorem is applied to concrete data.\<close>

definition demo_page :: page where
  "demo_page = \<lparr>pg_url = ''https://ex.org/a'', pg_text = ''t'', pg_links = [],
     pg_status_code = 200, pg_content_length = 1, pg_source = None\<rparr>"

definition any_host :: "string \<Rightarrow> bool" where
  "any_host h = True"

definition demo_cache :: url_cache where
  "demo_cache = URLCache_set any_host URLCache_init ''HTTPS://Ex.org/a/'' [demo_page] None ''t0''"

section \<open>The term searcher\<close>

text \<open>
  The values of \<open>config.py\<close> that the term searcher reads: \<open>SEARCH_TERMS\<close> and
  \<open>SCRAPING_CONFIG['context_snippet_length']\<close> (200 when the key is absent).
\<close>

record search_config =
  cfg_search_terms :: "string list"
  cfg_context_snippet_length :: int

record searcher =
  search_terms :: "string list"
  context_length :: int

text \<open>
  \<open>TermSearcher.__init__\<close>: \<open>x or default\<close> takes the default for \<open>None\<close>, for the empty
  list and for the number 0. The dictionary \<open>patterns\<close> holds one case-insensitive
  pattern of the escaped term for every term of \<open>search_terms\<close>, so it is determined by
  that list.
\<close>

definition TermSearcher_init :: "search_config \<Rightarrow> string list option \<Rightarrow> int option \<Rightarrow> searcher" where
  "TermSearcher_init cfg terms clen =
     \<lparr>search_terms = (case terms of None \<Rightarrow> cfg_search_terms cfg
                       | Some ts \<Rightarrow> if ts = [] then cfg_search_terms cfg else ts),
      context_length = (case clen of None \<Rightarrow> cfg_context_snippet_length cfg
                        | Some n \<Rightarrow> if n = 0 then cfg_context_snippet_length cfg else n)\<rparr>"

text \<open>The escaped term matches at the head of a text, letter case ignored.\<close>

fun match_at :: "string \<Rightarrow> string \<Rightarrow> bool" where
  "match_at [] s = True"
| "match_at (p # ps) [] = False"
| "match_at (p # ps) (c # cs) = (lower_char p = lower_char c \<and> match_at ps cs)"

text \<open>
  \<open>pattern.finditer(text)\<close>: the matches from left to right, none overlapping another,
  as pairs of start and end. \<open>finditer p i s\<close> scans the rest \<open>s\<close> of the text that starts
  at position \<open>i\<close>. The empty pattern matches once at every position, the end included.
\<close>

fun finditer :: "string \<Rightarrow> nat \<Rightarrow> string \<Rightarrow> (nat \<times> nat) list" where
  "finditer p i [] = (if p = [] then [(i, i)] else [])"
| "finditer p i (c # cs) =
     (if match_at p (c # cs)
      then (i, i + length p) #
           (if p = [] then finditer p (i + 1) cs
            else finditer p (i + length p) (drop (length p) (c # cs)))
      else finditer p (i + 1) cs)"

record occurrence =
  oc_term :: string
  oc_start :: int
  oc_end :: int
  oc_context :: string
  oc_matched_text :: string

definition context_of :: "searcher \<Rightarrow> string \<Rightarrow> int \<Rightarrow> int \<Rightarrow> string" where
  "context_of s text start end =
     (let context_start = max 0 (start - context_length s div 2);
          context_end = min (int (length text)) (end + context_length s div 2);
          context = py_strip (py_slice text context_start context_end)
      in py_join '' '' (py_split context))"

definition find_term_occurrences :: "searcher \<Rightarrow> string \<Rightarrow> string \<Rightarrow> occurrence list" where
  "find_term_occurrences s text term =
     (if term \<notin> set (search_terms s) then []
      else map (\<lambda>(start, end).
                  \<lparr>oc_term = term, oc_start = int start, oc_end = int end,
                   oc_context = context_of s text (int start) (int end),
                   oc_matched_text = py_slice text (int start) (int end)\<rparr>)
               (finditer term 0 text))"

record search_result =
  sr_url :: string
  sr_terms_found :: "string list"
  sr_occurrences :: "occurrence list"
  sr_total_matches :: int
  sr_source :: "string option"

text \<open>
  The loop of \<open>search_text\<close> over the terms. \<open>found_terms\<close> is a Python set; the model
  keeps its elements in a list without repetitions. Python leaves the order of
  \<open>list(found_terms)\<close> open, the model lists the terms in the order of their first
  insertion, and no theorem depends on that order.
\<close>

fun search_loop ::
  "searcher \<Rightarrow> string \<Rightarrow> string list \<Rightarrow> string list \<times> occurrence list \<times> int
     \<Rightarrow> string list \<times> occurrence list \<times> int" where
  "search_loop s text [] acc = acc"
| "search_loop s text (term # terms) (found_terms, occurrences, total_matches) =
     (let matches = find_term_occurrences s text term
      in if matches \<noteq> []
         then search_loop s text terms
                (List.insert term found_terms, occurrences @ matches,
                 total_matches + int (length matches))
         else search_loop s text terms (found_terms, occurrences, total_matches))"

definition search_text :: "searcher \<Rightarrow> string \<Rightarrow> string \<Rightarrow> search_result" where
  "search_text s text page_url =
     (let (found_terms, occurrences, total_matches) = search_loop s text (search_terms s) ([], [], 0)
      in \<lparr>sr_url = page_url, sr_terms_found = found_terms, sr_occurrences = occurrences,
          sr_total_matches = total_matches, sr_source = None\<rparr>)"

fun search_pages :: "searcher \<Rightarrow> page list \<Rightarrow> search_result list" where
  "search_pages s [] = []"
| "search_pages s (page # pages) =
     (let url = pg_url page; text = pg_text page;
          source = (case pg_source page of None \<Rightarrow> ''unknown'' | Some x \<Rightarrow> x)
      in if text = [] then search_pages s pages
         else let result = (search_text s text url)\<lparr>sr_source := Some source\<rparr>
              in if sr_terms_found result \<noteq> [] then result # search_pages s pages
                 else search_pages s pages)"

subsection \<open>Aggregation\<close>

text \<open>
  \<open>aggregate_results\<close> builds a dictionary with string keys. Its values are sets of
  terms (sorted lists at the end), lists of URLs, counts and the list of context
  snippets. Reading a key that is absent, or a value of another kind than the
  operation needs, raises in Python; the model returns \<open>None\<close> there.
\<close>

record snippet =
  sn_term :: string
  sn_context :: string
  sn_url :: string
  sn_source :: string

datatype aggval =
  StrSet "string set"
| StrList "string list"
| Count int
| Snippets "snippet list"

type_synonym aggregated = "string \<rightharpoonup> aggval"

definition set_update :: "string \<Rightarrow> string list \<Rightarrow> aggregated \<Rightarrow> aggregated option" where
  "set_update k xs d =
     (case d k of Some (StrSet s) \<Rightarrow> Some (d(k \<mapsto> StrSet (s \<union> set xs))) | _ \<Rightarrow> None)"

definition list_append :: "string \<Rightarrow> string \<Rightarrow> aggregated \<Rightarrow> aggregated option" where
  "list_append k x d =
     (case d k of Some (StrList l) \<Rightarrow> Some (d(k \<mapsto> StrList (l @ [x]))) | _ \<Rightarrow> None)"

definition count_add :: "string \<Rightarrow> int \<Rightarrow> aggregated \<Rightarrow> aggregated option" where
  "count_add k n d =
     (case d k of Some (Count c) \<Rightarrow> Some (d(k \<mapsto> Count (c + n))) | _ \<Rightarrow> None)"

definition snippets_extend :: "string \<Rightarrow> snippet list \<Rightarrow> aggregated \<Rightarrow> aggregated option" where
  "snippets_extend k xs d =
     (case d k of Some (Snippets l) \<Rightarrow> Some (d(k \<mapsto> Snippets (l @ xs))) | _ \<Rightarrow> None)"

definition sort_set :: "string \<Rightarrow> aggregated \<Rightarrow> aggregated option" where
  "sort_set k d =
     (case d k of Some (StrSet s) \<Rightarrow> Some (d(k \<mapsto> StrList (sorted_list_of_set s))) | _ \<Rightarrow> None)"

definition aggregated_init :: "nat \<Rightarrow> aggregated" where
  "aggregated_init n =
     [''terms_found'' \<mapsto> StrSet {},
      ''page_urls'' \<mapsto> StrList [],
      ''context_snippets'' \<mapsto> Snippets [],
      ''total_occurrences'' \<mapsto> Count 0,
      ''pages_with_terms'' \<mapsto> Count (int n),
      ''school_terms_found'' \<mapsto> StrSet {},
      ''school_page_urls'' \<mapsto> StrList [],
      ''school_total_occurrences'' \<mapsto> Count 0,
      ''school_pages_with_terms'' \<mapsto> Count 0,
      ''district_terms_found'' \<mapsto> StrSet {},
      ''district_page_urls'' \<mapsto> StrList [],
      ''district_total_occurrences'' \<mapsto> Count 0,
      ''district_pages_with_terms'' \<mapsto> Count 0]"

text \<open>The part of the loop body that depends on the source of the result.\<close>

definition by_source :: "string \<Rightarrow> search_result \<Rightarrow> aggregated \<Rightarrow> aggregated option" where
  "by_source pre result d =
     do {
       d1 \<leftarrow> set_update (pre @ ''_terms_found'') (sr_terms_found result) d;
       d2 \<leftarrow> list_append (pre @ ''_page_urls'') (sr_url result) d1;
       d3 \<leftarrow> count_add (pre @ ''_total_occurrences'') (sr_total_matches result) d2;
       count_add (pre @ ''_pages_with_terms'') 1 d3
     }"

definition aggregate_step :: "search_result \<Rightarrow> aggregated \<Rightarrow> aggregated option" where
  "aggregate_step result d =
     (let source = (case sr_source result of None \<Rightarrow> ''unknown'' | Some x \<Rightarrow> x)
      in do {
           d1 \<leftarrow> set_update ''terms_found'' (sr_terms_found result) d;
           d2 \<leftarrow> list_append ''page_urls'' (sr_url result) d1;
           d3 \<leftarrow> count_add ''total_occurrences'' (sr_total_matches result) d2;
           d4 \<leftarrow> (if source = ''school'' then by_source ''school'' result d3
                  else if source = ''district'' then by_source ''district'' result d3
                  else Some d3);
           snippets_extend ''context_snippets''
             (map (\<lambda>occ. \<lparr>sn_term = oc_term occ, sn_context = oc_context occ,
                           sn_url = sr_url result, sn_source = source\<rparr>)
                  (sr_occurrences result)) d4
         })"

fun aggregate_loop :: "search_result list \<Rightarrow> aggregated \<Rightarrow> aggregated option" where
  "aggregate_loop [] d = Some d"
| "aggregate_loop (result # results) d =
     (case aggregate_step result d of None \<Rightarrow> None | Some d' \<Rightarrow> aggregate_loop results d')"

definition aggregate_results :: "search_result list \<Rightarrow> aggregated option" where
  "aggregate_results search_results =
     do {
       d \<leftarrow> aggregate_loop search_results (aggregated_init (length search_results));
       d1 \<leftarrow> sort_set ''terms_found'' d;
       d2 \<leftarrow> sort_set ''school_terms_found'' d1;
       sort_set ''district_terms_found'' d2
     }"

text \<open>\<open>if key not in aggregated: aggregated[key] = default\<close>.\<close>

definition ensure_key :: "string \<Rightarrow> aggval \<Rightarrow> aggregated \<Rightarrow> aggregated" where
  "ensure_key k v d = (if k \<notin> dom d then d(k \<mapsto> v) else d)"

definition search_school_content ::
  "search_config \<Rightarrow> page list \<Rightarrow> string list option \<Rightarrow> aggregated option" where
  "search_school_content cfg pages terms =
     (let s = TermSearcher_init cfg terms None;
          search_results = search_pages s pages
      in case aggregate_results search_results of
           None \<Rightarrow> None
         | Some aggregated \<Rightarrow>
             Some (ensure_key ''district_pages_with_terms'' (Count 0)
                  (ensure_key ''district_total_occurrences'' (Count 0)
                  (ensure_key ''district_page_urls'' (StrList [])
                  (ensure_key ''district_terms_found'' (StrList [])
                  (ensure_key ''school_pages_with_terms'' (Count 0)
                  (ensure_key ''school_total_occurrences'' (Count 0)
                  (ensure_key ''school_page_urls'' (StrList [])
                  (ensure_key ''school_terms_found'' (StrList []) aggregated)))))))))"

subsection \<open>The shape of the aggregated dictionary\<close>

text \<open>
  A roll-up with the key prefix \<open>pre\<close> is present when the dictionary holds, under the
  four keys of that prefix, a sorted list of terms, a list of page URLs, the count of
  occurrences and the count of pages with terms.
\<close>

definition has_rollup :: "string \<Rightarrow> aggregated \<Rightarrow> bool" where
  "has_rollup pre d =
     ((case d (pre @ ''terms_found'') of Some (StrList ts) \<Rightarrow> sorted ts | _ \<Rightarrow> False)
    \<and> (case d (pre @ ''page_urls'') of Some (StrList us) \<Rightarrow> True | _ \<Rightarrow> False)
    \<and> (case d (pre @ ''total_occurrences'') of Some (Count n) \<Rightarrow> True | _ \<Rightarrow> False)
    \<and> (case d (pre @ ''pages_with_terms'') of Some (Count n) \<Rightarrow> True | _ \<Rightarrow> False))"

definition aggregated_keys :: "string set" where
  "aggregated_keys =
     {''district_pages_with_terms'', ''district_total_occurrences'', ''district_page_urls'',
      ''district_terms_found'',
      ''school_pages_with_terms'', ''school_total_occurrences'', ''school_page_urls'',
      ''school_terms_found'',
      ''pages_with_terms'', ''total_occurrences'', ''context_snippets'', ''page_urls'',
      ''terms_found''}"

text \<open>The shape that the loop of \<open>aggregate_results\<close> keeps; \<open>n\<close> is the number of results.\<close>

definition is_set :: "aggval option \<Rightarrow> bool" where
  "is_set v = (case v of Some (StrSet s) \<Rightarrow> True | _ \<Rightarrow> False)"

definition is_list :: "aggval option \<Rightarrow> bool" where
  "is_list v = (case v of Some (StrList l) \<Rightarrow> True | _ \<Rightarrow> False)"

definition is_count :: "aggval option \<Rightarrow> bool" where
  "is_count v = (case v of Some (Count c) \<Rightarrow> True | _ \<Rightarrow> False)"

definition is_snippets :: "aggval option \<Rightarrow> bool" where
  "is_snippets v = (case v of Some (Snippets l) \<Rightarrow> True | _ \<Rightarrow> False)"

definition loop_shape :: "nat \<Rightarrow> aggregated \<Rightarrow> bool" where
  "loop_shape n d =
     (dom d = aggregated_keys
    \<and> is_set (d ''terms_found'') \<and> is_set (d ''school_terms_found'')
    \<and> is_set (d ''district_terms_found'')
    \<and> is_list (d ''page_urls'') \<and> is_list (d ''school_page_urls'')
    \<and> is_list (d ''district_page_urls'')
    \<and> is_count (d ''total_occurrences'') \<and> is_count (d ''school_total_occurrences'')
    \<and> is_count (d ''district_total_occurrences'')
    \<and> is_count (d ''school_pages_with_terms'') \<and> is_count (d ''district_pages_with_terms'')
    \<and> is_snippets (d ''context_snippets'')
    \<and> d ''pages_with_terms'' = Some (Count (int n)))"

text \<open>Two values of the same kind: an update by such a value keeps the shape.\<close>

definition same_kind :: "aggval \<Rightarrow> aggval \<Rightarrow> bool" where
  "same_kind v w =
     (case (v, w) of
        (StrSet a, StrSet b) \<Rightarrow> True
      | (StrList a, StrList b) \<Rightarrow> True
      | (Count a, Count b) \<Rightarrow> True
      | (Snippets a, Snippets b) \<Rightarrow> True
      | _ \<Rightarrow> False)"

subsection \<open>What the claims about the term searcher speak of\<close>

text \<open>
  A term occurs in a text when the pattern of the term matches at the head of the text
  or of one of its suffixes, letter case ignored; the empty suffix counts, so the empty
  term occurs in every text.
\<close>

fun occurs_in :: "string \<Rightarrow> string \<Rightarrow> bool" where
  "occurs_in p [] = (p = [])"
| "occurs_in p (c # cs) = (match_at p (c # cs) \<or> occurs_in p cs)"

definition contains_term :: "string list \<Rightarrow> string \<Rightarrow> bool" where
  "contains_term terms text = (\<exists>t \<in> set terms. occurs_in t text)"


text \<open>
  All positions of a text, counted from \<open>i\<close>, at which the pattern of a term matches,
  and lists of positions that lie at least \<open>n\<close> apart, so that matches of length \<open>n\<close> at
  these positions do not overlap.
\<close>

fun match_positions :: "string \<Rightarrow> nat \<Rightarrow> string \<Rightarrow> nat list" where
  "match_positions p i [] = (if p = [] then [i] else [])"
| "match_positions p i (c # cs) =
     (if match_at p (c # cs) then i # match_positions p (i + 1) cs
      else match_positions p (i + 1) cs)"

fun apart :: "nat \<Rightarrow> nat list \<Rightarrow> bool" where
  "apart n [] = True"
| "apart n [k] = True"
| "apart n (k # k' # ks) = (k + n \<le> k' \<and> apart n (k' # ks))"

text \<open>
  A text laid out as separators and words in turn: \<open>weave [s0, s1, s2] [w1, w2]\<close> is
  \<open>s0 w1 s1 w2 s2\<close>.
\<close>

fun weave :: "'a list list \<Rightarrow> 'a list list \<Rightarrow> 'a list" where
  "weave (s # ss) (w # ws) = s @ w @ weave ss ws"
| "weave ss [] = concat ss"
| "weave [] ws = concat ws"

text \<open>
  The results of one source, the context snippets of a result, and a roll-up with the
  key prefix \<open>pre\<close> that holds the values of a list of results: their terms as a sorted
  list without repetitions, their URLs, the sum of their counts and their number.
\<close>

definition from_source :: "string \<Rightarrow> search_result list \<Rightarrow> search_result list" where
  "from_source src rs = filter (\<lambda>r. sr_source r = Some src) rs"

definition snippets_of :: "search_result \<Rightarrow> snippet list" where
  "snippets_of r =
     map (\<lambda>occ. \<lparr>sn_term = oc_term occ, sn_context = oc_context occ, sn_url = sr_url r,
                  sn_source = (case sr_source r of None \<Rightarrow> ''unknown'' | Some x \<Rightarrow> x)\<rparr>)
         (sr_occurrences r)"

definition rollup_of :: "string \<Rightarrow> search_result list \<Rightarrow> aggregated \<Rightarrow> bool" where
  "rollup_of pre rs d =
     (d (pre @ ''terms_found'') =
        Some (StrList (sorted_list_of_set (set (concat (map sr_terms_found rs)))))
    \<and> d (pre @ ''page_urls'') = Some (StrList (map sr_url rs))
    \<and> d (pre @ ''total_occurrences'') = Some (Count (sum_list (map sr_total_matches rs)))
    \<and> d (pre @ ''pages_with_terms'') = Some (Count (int (length rs))))"

text \<open>
  The values that the loop of \<open>aggregate_results\<close> has built after the results \<open>rs\<close>;
  \<open>n\<close> is the number of all results.
\<close>

definition loop_vals :: "nat \<Rightarrow> search_result list \<Rightarrow> aggregated \<Rightarrow> bool" where
  "loop_vals n rs d =
     (d ''terms_found'' = Some (StrSet (set (concat (map sr_terms_found rs))))
    \<and> d ''page_urls'' = Some (StrList (map sr_url rs))
    \<and> d ''total_occurrences'' = Some (Count (sum_list (map sr_total_matches rs)))
    \<and> d ''pages_with_terms'' = Some (Count (int n))
    \<and> d ''school_terms_found'' =
        Some (StrSet (set (concat (map sr_terms_found (from_source ''school'' rs)))))
    \<and> d ''school_page_urls'' = Some (StrList (map sr_url (from_source ''school'' rs)))
    \<and> d ''school_total_occurrences'' =
        Some (Count (sum_list (map sr_total_matches (from_source ''school'' rs))))
    \<and> d ''school_pages_with_terms'' = Some (Count (int (length (from_source ''school'' rs))))
    \<and> d ''district_terms_found'' =
        Some (StrSet (set (concat (map sr_terms_found (from_source ''district'' rs)))))
    \<and> d ''district_page_urls'' = Some (StrList (map sr_url (from_source ''district'' rs)))
    \<and> d ''district_total_occurrences'' =
        Some (Count (sum_list (map sr_total_matches (from_source ''district'' rs))))
    \<and> d ''district_pages_with_terms'' =
        Some (Count (int (length (from_source ''district'' rs))))
    \<and> d ''context_snippets'' = Some (Snippets (concat (map snippets_of rs))))"

text \<open>Reading the result of the aggregation, which is \<open>None\<close> if the aggregation raised.\<close>

definition agg_lookup :: "string \<Rightarrow> aggregated option \<Rightarrow> aggval option" where
  "agg_lookup k a = (case a of None \<Rightarrow> None | Some d \<Rightarrow> d k)"

definition rollup_present :: "string \<Rightarrow> aggregated option \<Rightarrow> bool" where
  "rollup_present pre a = (case a of None \<Rightarrow> False | Some d \<Rightarrow> has_rollup pre d)"

text \<open>A page whose text contains a configured term, and the result entry of a page.\<close>

definition page_has_term :: "searcher \<Rightarrow> page \<Rightarrow> bool" where
  "page_has_term s p = contains_term (search_terms s) (pg_text p)"

definition page_result :: "searcher \<Rightarrow> page \<Rightarrow> search_result" where
  "page_result s p =
     (search_text s (pg_text p) (pg_url p))
       \<lparr>sr_source := Some (case pg_source p of None \<Rightarrow> ''unknown'' | Some x \<Rightarrow> x)\<rparr>"

text \<open>Data for concrete applications of the theorems.\<close>

definition demo_searcher :: searcher where
  "demo_searcher = \<lparr>search_terms = [''race equity'', ''justice''], context_length = 12\<rparr>"

definition demo_text :: string where
  "demo_text = ''Race Equity and  RACE EQUITY, race equity''"

definition empty_term_searcher :: searcher where
  "empty_term_searcher = \<lparr>search_terms = [''''], context_length = 200\<rparr>"

definition empty_page :: page where
  "empty_page = \<lparr>pg_url = ''https://ex.org/e'', pg_text = [], pg_links = [],
     pg_status_code = 200, pg_content_length = 0, pg_source = None\<rparr>"

definition demo_pages :: "page list" where
  "demo_pages =
     [demo_page\<lparr>pg_text := demo_text, pg_source := Some ''school''\<rparr>,
      empty_page,
      demo_page\<lparr>pg_text := ''nothing to find here''\<rparr>]"

section \<open>The web scraper\<close>

subsection \<open>Configuration and environment\<close>

text \<open>
  The values that \<open>WebScraper\<close> reads from its configuration dictionary, each as
  \<open>config.get(key, default)\<close> yields it, and the global \<open>SEARCH_TERMS\<close>. A skip pattern
  is a regular expression; the model takes it as the predicate that \<open>re.search\<close> with
  this pattern computes on a string. Delays are Python floats; the model computes with
  real numbers.
\<close>

record scraper_config =
  sc_max_depth :: int
  sc_max_pages_per_site :: int
  sc_verify_ssl :: bool
  sc_ssl_fallback_unverified :: bool
  sc_ssl_retry_with_unverified :: bool
  sc_skip_url_patterns :: "(string \<Rightarrow> bool) list"
  sc_min_content_length :: int
  sc_quick_content_check :: bool
  sc_require_relevant_content :: bool
  sc_search_terms :: "string list"

text \<open>
  What the HTTP library answers: a response with its status code, its final URL, its
  \<open>Location\<close> header (empty when absent) and its text; \<open>r_text\<close> is \<open>None\<close> when reading
  \<open>response.text\<close> raises \<open>UnicodeDecodeError\<close>, and \<open>r_text_reencoded\<close> is the text read
  after the encoding has been set to the apparent one.
\<close>

record response =
  r_status_code :: int
  r_url :: string
  r_location :: string
  r_text :: "string option"
  r_text_reencoded :: "string option"

text \<open>
  The exceptions that the handlers of \<open>scrape_page\<close> tell apart, with \<open>str(e)\<close> where a
  handler reads it and \<open>e.response\<close> for an HTTP error.
\<close>

datatype exn =
  SSLError string
| HTTPError "response option"
| ConnectionError string
| Timeout string
| TooManyRedirects string
| InvalidURL
| MissingSchema
| InvalidSchema
| ChunkedEncodingError string
| ContentDecodingError string
| UnicodeDecodeError
| RequestException string
| OtherException

datatype client = Session | Cloudscraper

datatype parser = Lxml | HtmlParser

text \<open>
  The world outside the program. \<open>net t c url allow_redirects verify\<close> is the outcome of
  the \<open>t\<close>-th request of the run, \<open>c.get(url, allow_redirects=..., verify=...)\<close>, with
  \<open>verify = None\<close> when the argument is not passed; the index \<open>t\<close> lets the same request
  have different outcomes at different times. \<open>urljoin\<close> is \<open>urllib.parse.urljoin\<close>
  (\<open>None\<close> when it raises), \<open>soup_hrefs\<close> gives the \<open>href\<close> values of the anchors that
  BeautifulSoup finds with the given parser (\<open>None\<close> when the parser raises), and
  \<open>soup_text\<close> is the visible text as \<open>extract_text\<close> gets it from BeautifulSoup and
  cleans it, empty when the extraction fails.
\<close>

record env =
  net :: "nat \<Rightarrow> client \<Rightarrow> string \<Rightarrow> bool \<Rightarrow> bool option \<Rightarrow> exn + response"
  host_ok :: "string \<Rightarrow> bool"
  urljoin :: "string \<Rightarrow> string \<Rightarrow> string option"
  soup_hrefs :: "parser \<Rightarrow> string \<Rightarrow> string list option"
  soup_text :: "string \<Rightarrow> string"

text \<open>The attributes of a \<open>WebScraper\<close> that change while it runs.\<close>

record scraper =
  visited_urls :: "string set"
  scraped_pages :: "page list"
  current_delay :: real
  min_delay :: real
  max_delay :: real
  consecutive_errors :: int
  consecutive_successes :: int
  cloudscraper_session :: bool

subsection \<open>Helpers of the scraper\<close>

definition is_valid_url :: "env \<Rightarrow> string \<Rightarrow> bool" where
  "is_valid_url e url =
     (if url = [] \<or> starts_with url ''mailto:'' \<or> starts_with url ''tel:'' then False
      else if CHR ''@'' \<in> set url
              \<and> \<not> (starts_with url ''http://'' \<or> starts_with url ''https://''
                    \<or> starts_with url ''mailto:'')
      then False
      else case urlparse (host_ok e) url of
             None \<Rightarrow> False
           | Some parsed \<Rightarrow>
               if scheme parsed = [] \<or> netloc parsed = [] then False
               else if scheme parsed \<notin> set [''http'', ''https''] then False
               else if CHR ''@'' \<in> set (netloc parsed) \<and> \<not> starts_with (netloc parsed) ''[''
               then False
               else True)"

definition normalize_url :: "env \<Rightarrow> string \<Rightarrow> string \<Rightarrow> string" where
  "normalize_url e url base_url =
     (case urljoin e base_url url of
        Some joined \<Rightarrow> rstrip_slash (before_first CHR ''#'' joined)
      | None \<Rightarrow> url)"

definition is_same_domain :: "env \<Rightarrow> string \<Rightarrow> string \<Rightarrow> bool" where
  "is_same_domain e url1 url2 =
     (case (urlparse (host_ok e) url1, urlparse (host_ok e) url2) of
        (Some p1, Some p2) \<Rightarrow> netloc p1 = netloc p2
      | _ \<Rightarrow> False)"

definition should_skip_url :: "scraper_config \<Rightarrow> string \<Rightarrow> bool" where
  "should_skip_url cfg url =
     (let url_lower = py_lower url
      in list_ex (\<lambda>pattern. pattern url_lower) (sc_skip_url_patterns cfg))"

definition has_relevant_content :: "scraper_config \<Rightarrow> string \<Rightarrow> bool" where
  "has_relevant_content cfg txt =
     (if txt = [] \<or> length txt < 50 then False
      else let text_lower = py_lower txt
           in list_ex (\<lambda>term. py_in (py_lower term) text_lower) (sc_search_terms cfg))"

definition is_minimal_content_page :: "scraper_config \<Rightarrow> string \<Rightarrow> bool" where
  "is_minimal_content_page cfg txt = (int (length txt) < sc_min_content_length cfg)"

definition indicators :: "string list" where
  "indicators =
     [''client challenge'', ''javascript challenge'', ''cloudflare'',
      ''ddos protection'', ''checking your browser'', ''please enable javascript'',
      ''cf-browser-verification'', ''challenge-platform'', ''cf-ray'',
      ''just a moment'', ''enable javascript and cookies'', ''bot protection'',
      ''client challenge javascript is disabled'']"

definition is_bot_protection_page :: "env \<Rightarrow> string \<Rightarrow> bool" where
  "is_bot_protection_page e html_content =
     (if html_content = [] then True
      else let content_lower = py_lower html_content
           in if length html_content < 1000
                 \<and> (case soup_hrefs e HtmlParser html_content of
                       Some links \<Rightarrow>
                         length links = 0
                         \<and> list_ex (\<lambda>indicator. py_in indicator content_lower) (take 5 indicators)
                     | None \<Rightarrow> False)
              then True
              else list_ex (\<lambda>indicator. py_in indicator content_lower) indicators)"

definition extract_text :: "env \<Rightarrow> string \<Rightarrow> string" where
  "extract_text e html_content = (if html_content = [] then [] else soup_text e html_content)"

text \<open>
  Python tests the base domain for truth in some places and for \<open>None\<close> in others.
\<close>

definition truthy :: "string option \<Rightarrow> bool" where
  "truthy d = (case d of None \<Rightarrow> False | Some x \<Rightarrow> x \<noteq> [])"

text \<open>
  \<open>extract_links\<close>: the loop over the anchors keeps a link when its \<open>href\<close> is not empty
  and is no \<open>mailto:\<close> or \<open>tel:\<close> link, the resolved URL is valid, and its network
  location is the base domain. \<open>list(set(links))\<close> removes repetitions and leaves the
  order open; the model keeps the order of first occurrence.
\<close>

definition keep_link :: "env \<Rightarrow> string \<Rightarrow> string option \<Rightarrow> string \<Rightarrow> string option" where
  "keep_link e base_url base_domain href =
     (if href = [] then None
      else if starts_with href ''mailto:'' \<or> starts_with href ''tel:'' then None
      else let full_url = normalize_url e href base_url
           in if \<not> is_valid_url e full_url then None
              else if truthy base_domain
              then (case urlparse (host_ok e) full_url of
                      None \<Rightarrow> None
                    | Some p \<Rightarrow> if netloc p \<noteq> the base_domain then None else Some full_url)
              else if \<not> is_same_domain e full_url base_url then None
              else Some full_url)"

definition extract_links :: "env \<Rightarrow> string \<Rightarrow> string \<Rightarrow> string option \<Rightarrow> string list" where
  "extract_links e html_content base_url base_domain =
     (if html_content = [] then []
      else let bd = (case base_domain of
                       None \<Rightarrow> (case urlparse (host_ok e) base_url of
                                  Some p \<Rightarrow> Some (netloc p) | None \<Rightarrow> None)
                     | Some d \<Rightarrow> Some d);
               soup = (case soup_hrefs e Lxml html_content of
                         Some hs \<Rightarrow> Some hs
                       | None \<Rightarrow> soup_hrefs e HtmlParser html_content)
           in case soup of
                None \<Rightarrow> []
              | Some hrefs \<Rightarrow> remdups (List.map_filter (keep_link e base_url bd) hrefs))"

subsection \<open>Fetching one page\<close>

text \<open>
  How a block of statements ends: it runs to its end with a value, it executes
  \<open>return None\<close>, or it raises.
\<close>

datatype 'a flow = Done 'a | Return_None | Raised exn

definition is_external_redirect :: "env \<Rightarrow> string option \<Rightarrow> string \<Rightarrow> bool" where
  "is_external_redirect e base_domain check_url =
     (if \<not> truthy base_domain then False
      else case urlparse (host_ok e) check_url of
             None \<Rightarrow> False
           | Some p \<Rightarrow> netloc p \<noteq> the base_domain)"

text \<open>\<open>response.ok\<close>, which is also the truth value of a response.\<close>

definition resp_ok :: "response \<Rightarrow> bool" where
  "resp_ok r = (\<not> (400 \<le> r_status_code r \<and> r_status_code r < 600))"

definition is_redirect_status :: "response \<Rightarrow> bool" where
  "is_redirect_status r = (r_status_code r \<in> set [301, 302, 303, 307, 308])"

text \<open>
  \<open>response.raise_for_status()\<close>, \<open>final_url = response.url\<close> and the check of the final
  URL, the end of each of the four request blocks.
\<close>

definition finish_get :: "env \<Rightarrow> string option \<Rightarrow> response \<Rightarrow> (response \<times> string) flow" where
  "finish_get e base_domain r =
     (if \<not> resp_ok r then Raised (HTTPError (Some r))
      else if is_external_redirect e base_domain (r_url r) then Return_None
      else Done (r, r_url r))"

text \<open>
  One request block: the request without redirects, the check of the redirect target,
  the request of the target, and the end above. \<open>v1\<close> and \<open>v2\<close> are the \<open>verify\<close>
  arguments of the two requests. The second component is the clock after the block.
\<close>

definition checked_get ::
  "env \<Rightarrow> string option \<Rightarrow> nat \<Rightarrow> client \<Rightarrow> bool option \<Rightarrow> bool option \<Rightarrow> string
     \<Rightarrow> (response \<times> string) flow \<times> nat" where
  "checked_get e base_domain t c v1 v2 url =
     (case net e t c url False v1 of
        Inl ex \<Rightarrow> (Raised ex, t + 1)
      | Inr r \<Rightarrow>
          if is_redirect_status r \<and> r_location r \<noteq> []
          then (case urljoin e url (r_location r) of
                  None \<Rightarrow> (Raised OtherException, t + 1)
                | Some redirect_url \<Rightarrow>
                    if is_external_redirect e base_domain redirect_url then (Return_None, t + 1)
                    else (case net e (t + 1) c redirect_url True v2 of
                            Inl ex \<Rightarrow> (Raised ex, t + 2)
                          | Inr r2 \<Rightarrow> (finish_get e base_domain r2, t + 2)))
          else (finish_get e base_domain r, t + 1))"

text \<open>\<open>base_domain and base_domain not in str(e)\<close> and \<open>'handshake' in str(e).lower()\<close>.\<close>

definition error_elsewhere :: "string option \<Rightarrow> string \<Rightarrow> bool" where
  "error_elsewhere base_domain msg = (truthy base_domain \<and> \<not> py_in (the base_domain) msg)"

definition is_handshake :: "string \<Rightarrow> bool" where
  "is_handshake msg = py_in ''handshake'' (py_lower msg)"

text \<open>
  The test of the handlers of \<open>HTTPError\<close>: \<open>e.response and base_domain\<close>, then the
  comparison of the network location of \<open>e.response.url\<close> with the base domain.
\<close>

definition http_error_elsewhere :: "env \<Rightarrow> string option \<Rightarrow> response option \<Rightarrow> bool" where
  "http_error_elsewhere e base_domain ro =
     (case ro of
        None \<Rightarrow> False
      | Some r \<Rightarrow>
          resp_ok r \<and> truthy base_domain
          \<and> (case urlparse (host_ok e) (r_url r) of
                None \<Rightarrow> False
              | Some p \<Rightarrow> netloc p \<noteq> the base_domain))"

text \<open>
  The block \<open>if use_cloudscraper_first and self.cloudscraper_session\<close>. Its value is
  the response (\<open>None\<close> after a failure), \<open>final_url\<close> and \<open>used_cloudscraper\<close>.
\<close>

definition try_cloudscraper ::
  "env \<Rightarrow> scraper_config \<Rightarrow> string option \<Rightarrow> nat \<Rightarrow> string
     \<Rightarrow> (response option \<times> string \<times> bool) flow \<times> nat" where
  "try_cloudscraper e cfg base_domain t url =
     (case checked_get e base_domain t Cloudscraper None None url of
        (Done (r, final_url), t1) \<Rightarrow> (Done (Some r, final_url, True), t1)
      | (Return_None, t1) \<Rightarrow> (Return_None, t1)
      | (Raised ex, t1) \<Rightarrow>
          (case ex of
             SSLError msg \<Rightarrow>
               if error_elsewhere base_domain msg then (Return_None, t1)
               else if sc_ssl_fallback_unverified cfg \<and> is_handshake msg
               then (case checked_get e base_domain t1 Cloudscraper (Some False) (Some False) url of
                       (Done (r, final_url), t2) \<Rightarrow> (Done (Some r, final_url, True), t2)
                     | (Return_None, t2) \<Rightarrow> (Return_None, t2)
                     | (Raised fallback_error, t2) \<Rightarrow> (Done (None, url, False), t2))
               else (Done (None, url, False), t1)
           | HTTPError ro \<Rightarrow>
               if http_error_elsewhere e base_domain ro then (Return_None, t1)
               else (Done (None, url, False), t1)
           | _ \<Rightarrow> (Done (None, url, False), t1)))"

text \<open>
  The block \<open>if response is None\<close> with the regular session. A bare \<open>raise\<close> in the
  handler of the fallback raises the exception of the fallback again.
\<close>

definition try_session ::
  "env \<Rightarrow> scraper_config \<Rightarrow> string option \<Rightarrow> nat \<Rightarrow> string
     \<Rightarrow> (response \<times> string) flow \<times> nat" where
  "try_session e cfg base_domain t url =
     (case checked_get e base_domain t Session None (Some (sc_verify_ssl cfg)) url of
        (Done (r, final_url), t1) \<Rightarrow> (Done (r, final_url), t1)
      | (Return_None, t1) \<Rightarrow> (Return_None, t1)
      | (Raised ex, t1) \<Rightarrow>
          (case ex of
             SSLError msg \<Rightarrow>
               if error_elsewhere base_domain msg then (Return_None, t1)
               else if sc_ssl_fallback_unverified cfg \<and> is_handshake msg
               then checked_get e base_domain t1 Session (Some False) (Some False) url
               else (Raised ex, t1)
           | HTTPError ro \<Rightarrow>
               if http_error_elsewhere e base_domain ro then (Return_None, t1)
               else (Raised ex, t1)
           | _ \<Rightarrow> (Raised ex, t1)))"

text \<open>
  The end of a retry against bot protection. After \<open>raise_for_status\<close> has raised, the
  variable \<open>response\<close> holds the response of the retry, and \<open>final_url\<close> is the old one.
\<close>

definition finish_retry ::
  "env \<Rightarrow> string option \<Rightarrow> string \<Rightarrow> bool \<Rightarrow> response
     \<Rightarrow> (response \<times> string \<times> bool) flow" where
  "finish_retry e base_domain final_url keep_going r2 =
     (if \<not> resp_ok r2
      then (if \<not> keep_going \<and> http_error_elsewhere e base_domain (Some r2) then Return_None
            else Done (r2, final_url, False))
      else if is_external_redirect e base_domain (r_url r2) then Return_None
      else Done (r2, r_url r2, True))"

text \<open>
  The retry with cloudscraper when the page looks like a bot protection page. In the
  fallback without verification every exception is swallowed (\<open>keep_going\<close>).
\<close>

definition bot_retry ::
  "env \<Rightarrow> scraper_config \<Rightarrow> string option \<Rightarrow> nat \<Rightarrow> string \<Rightarrow> response \<Rightarrow> string
     \<Rightarrow> (response \<times> string \<times> bool) flow \<times> nat" where
  "bot_retry e cfg base_domain t url r final_url =
     (case net e t Cloudscraper url True None of
        Inr r2 \<Rightarrow> (finish_retry e base_domain final_url False r2, t + 1)
      | Inl ex \<Rightarrow>
          (case ex of
             SSLError msg \<Rightarrow>
               if error_elsewhere base_domain msg then (Return_None, t + 1)
               else if sc_ssl_fallback_unverified cfg \<and> is_handshake msg
               then (case net e (t + 1) Cloudscraper url True (Some False) of
                       Inr r3 \<Rightarrow> (finish_retry e base_domain final_url True r3, t + 2)
                     | Inl ssl_fallback_error \<Rightarrow> (Done (r, final_url, False), t + 2))
               else (Done (r, final_url, False), t + 1)
           | HTTPError ro \<Rightarrow>
               if http_error_elsewhere e base_domain ro then (Return_None, t + 1)
               else (Done (r, final_url, False), t + 1)
           | _ \<Rightarrow> (Done (r, final_url, False), t + 1)))"

text \<open>Reading the text of the response, with one more attempt after a decoding error.\<close>

definition html_of :: "response \<Rightarrow> string option" where
  "html_of r = (case r_text r of Some h \<Rightarrow> Some h | None \<Rightarrow> r_text_reencoded r)"

definition make_page :: "env \<Rightarrow> string option \<Rightarrow> response \<Rightarrow> string \<Rightarrow> string \<Rightarrow> page" where
  "make_page e base_domain r final_url html_content =
     (let text_content = extract_text e html_content;
          links = extract_links e html_content final_url base_domain
      in \<lparr>pg_url = final_url, pg_text = text_content, pg_links = links,
          pg_status_code = r_status_code r, pg_content_length = int (length text_content),
          pg_source = None\<rparr>)"

text \<open>The body of the outer \<open>try\<close> up to the construction of \<open>page_data\<close>.\<close>

definition scrape_try ::
  "env \<Rightarrow> scraper_config \<Rightarrow> scraper \<Rightarrow> string option \<Rightarrow> nat \<Rightarrow> string \<Rightarrow> bool
     \<Rightarrow> page flow \<times> nat" where
  "scrape_try e cfg self base_domain t url use_cloudscraper_first =
     (case (if use_cloudscraper_first \<and> cloudscraper_session self
            then try_cloudscraper e cfg base_domain t url
            else (Done (None, url, False), t)) of
        (Return_None, t1) \<Rightarrow> (Return_None, t1)
      | (Raised ex, t1) \<Rightarrow> (Raised ex, t1)
      | (Done (response, final_url0, used_cloudscraper), t1) \<Rightarrow>
          (case (case response of
                   Some r \<Rightarrow> (Done (r, final_url0), t1)
                 | None \<Rightarrow> try_session e cfg base_domain t1 url) of
             (Return_None, t2) \<Rightarrow> (Return_None, t2)
           | (Raised ex, t2) \<Rightarrow> (Raised ex, t2)
           | (Done (r, final_url), t2) \<Rightarrow>
               if truthy base_domain \<and> is_external_redirect e base_domain final_url
               then (Return_None, t2)
               else
                 let response_text = (case r_text r of Some s \<Rightarrow> s | None \<Rightarrow> []);
                     is_bot_protection = is_bot_protection_page e response_text
                 in (case (if is_bot_protection \<and> \<not> used_cloudscraper \<and> cloudscraper_session self
                           then bot_retry e cfg base_domain t2 url r final_url
                           else (Done (r, final_url, used_cloudscraper), t2)) of
                       (Return_None, t3) \<Rightarrow> (Return_None, t3)
                     | (Raised ex, t3) \<Rightarrow> (Raised ex, t3)
                     | (Done (r', final_url', used'), t3) \<Rightarrow>
                         (case html_of r' of
                            None \<Rightarrow> (Return_None, t3)
                          | Some html_content \<Rightarrow>
                              (Done (make_page e base_domain r' final_url' html_content), t3)))))"

text \<open>Marking the URLs as visited and keeping the page.\<close>

definition record_page :: "scraper \<Rightarrow> string \<Rightarrow> page \<Rightarrow> bool \<Rightarrow> scraper" where
  "record_page self url page_data add_to_scraped_pages =
     self\<lparr>visited_urls :=
            (if pg_url page_data \<noteq> url
             then insert (pg_url page_data) (insert url (visited_urls self))
             else insert url (visited_urls self)),
          scraped_pages :=
            (if add_to_scraped_pages then scraped_pages self @ [page_data]
             else scraped_pages self)\<rparr>"

text \<open>
  The handler of \<open>SSLError\<close> of the outer \<open>try\<close>: one last request without
  verification. Every exception in it ends in \<open>return None\<close>.
\<close>

definition last_resort ::
  "env \<Rightarrow> scraper_config \<Rightarrow> string option \<Rightarrow> nat \<Rightarrow> string \<Rightarrow> string \<Rightarrow> page option \<times> nat" where
  "last_resort e cfg base_domain t url msg =
     (if error_elsewhere base_domain msg then (None, t)
      else if sc_ssl_retry_with_unverified cfg \<and> is_handshake msg
      then (case net e t Session url True (Some False) of
              Inl last_resort_error \<Rightarrow> (None, t + 1)
            | Inr r \<Rightarrow>
                if \<not> resp_ok r then (None, t + 1)
                else if truthy base_domain \<and> is_external_redirect e base_domain (r_url r)
                then (None, t + 1)
                else (case html_of r of
                        None \<Rightarrow> (None, t + 1)
                      | Some html_content \<Rightarrow>
                          (Some (make_page e base_domain r (r_url r) html_content), t + 1)))
      else (None, t))"

text \<open>
  \<open>scrape_page\<close>: the page or \<open>None\<close>, the scraper after the call and the clock after
  it. All handlers of the outer \<open>try\<close> but the one of \<open>SSLError\<close> log and return \<open>None\<close>.
\<close>

definition scrape_page ::
  "env \<Rightarrow> scraper_config \<Rightarrow> scraper \<Rightarrow> nat \<Rightarrow> string \<Rightarrow> bool \<Rightarrow> bool \<Rightarrow> string option
     \<Rightarrow> page option \<times> scraper \<times> nat" where
  "scrape_page e cfg self t url use_cloudscraper_first add_to_scraped_pages base_domain =
     (if \<not> is_valid_url e url then (None, self, t)
      else if url \<in> visited_urls self then (None, self, t)
      else case scrape_try e cfg self base_domain t url use_cloudscraper_first of
             (Done page_data, t1) \<Rightarrow>
               (Some page_data, record_page self url page_data add_to_scraped_pages, t1)
           | (Return_None, t1) \<Rightarrow> (None, self, t1)
           | (Raised ex, t1) \<Rightarrow>
               (case ex of
                  SSLError msg \<Rightarrow>
                    (case last_resort e cfg base_domain t1 url msg of
                       (Some page_data, t2) \<Rightarrow>
                         (Some page_data, record_page self url page_data add_to_scraped_pages, t2)
                     | (None, t2) \<Rightarrow> (None, self, t2))
                | _ \<Rightarrow> (None, self, t1)))"

subsection \<open>Crawling a site\<close>

text \<open>
  The adaptive delay of \<open>scrape_site\<close> after a page has been fetched and after a fetch
  has failed.
\<close>

definition delay_after_success :: "scraper \<Rightarrow> scraper" where
  "delay_after_success self =
     (let s1 = self\<lparr>consecutive_successes := consecutive_successes self + 1,
                    consecutive_errors := 0\<rparr>
      in if consecutive_successes s1 > 5 \<and> current_delay s1 > min_delay s1
         then s1\<lparr>current_delay := max (min_delay s1) (current_delay s1 * 0.9),
                 consecutive_successes := 0\<rparr>
         else s1)"

definition delay_after_failure :: "scraper \<Rightarrow> scraper" where
  "delay_after_failure self =
     (let s1 = self\<lparr>consecutive_errors := consecutive_errors self + 1,
                    consecutive_successes := 0\<rparr>
      in if consecutive_errors s1 > 2
         then s1\<lparr>current_delay := min (max_delay s1) (current_delay s1 * 1.5)\<rparr>
         else s1)"

text \<open>
  The state of one run of \<open>scrape_site\<close>: the scraper, the queue and the clock of the
  network. Three more fields record what happens: the durations passed to
  \<open>time.sleep\<close>, the calls of \<open>scrape_page\<close> by the loop with their success, and whether
  the loop has ended.
\<close>

record crawl =
  cr_self :: scraper
  cr_queue :: "(string \<times> int) list"
  cr_clock :: nat
  cr_slept :: "real list"
  cr_fetched :: "(string \<times> bool) list"
  cr_stopped :: bool

text \<open>\<open>if self.current_delay > 0: time.sleep(self.current_delay)\<close>.\<close>

definition sleep_delay :: "scraper \<Rightarrow> real list \<Rightarrow> real list" where
  "sleep_delay self slept =
     (if current_delay self > 0 then slept @ [current_delay self] else slept)"

text \<open>Whether the links of a fetched page are followed.\<close>

definition should_follow :: "scraper_config \<Rightarrow> bool \<Rightarrow> string \<Rightarrow> bool" where
  "should_follow cfg should_skip_content text_content =
     (if \<not> should_skip_content
      then (if sc_quick_content_check cfg
            then (let is_minimal = is_minimal_content_page cfg text_content;
                      has_relevant = has_relevant_content cfg text_content
                  in if is_minimal \<and> \<not> has_relevant then False
                     else if sc_require_relevant_content cfg then has_relevant
                     else True)
            else True)
      else True)"

text \<open>The loop over the links of a page that appends to the queue.\<close>

fun enqueue_links ::
  "scraper_config \<Rightarrow> string set \<Rightarrow> string list \<Rightarrow> int \<Rightarrow> (string \<times> int) list
     \<Rightarrow> (string \<times> int) list" where
  "enqueue_links cfg visited [] depth url_queue = url_queue"
| "enqueue_links cfg visited (link # links) depth url_queue =
     (if link \<notin> visited
      then (if should_skip_url cfg link
            then enqueue_links cfg visited links depth url_queue
            else enqueue_links cfg visited links depth (url_queue @ [(link, depth + 1)]))
      else enqueue_links cfg visited links depth url_queue)"

text \<open>
  One pass through the body of the \<open>while\<close> loop, entered with a queue that is not
  empty. \<open>continue\<close> leaves the state as it is after the \<open>pop\<close>; the \<open>break\<close> at the end
  of the body sets \<open>cr_stopped\<close>.
\<close>

definition crawl_body ::
  "env \<Rightarrow> scraper_config \<Rightarrow> string \<Rightarrow> int \<Rightarrow> int \<Rightarrow> crawl \<Rightarrow> crawl" where
  "crawl_body e cfg base_domain max_depth max_pages c =
     (let (current_url, depth) = hd (cr_queue c);
          c1 = c\<lparr>cr_queue := tl (cr_queue c)\<rparr>;
          self = cr_self c
      in if current_url \<in> visited_urls self \<or> depth > max_depth then c1
         else
           let should_skip_content = (should_skip_url cfg current_url \<and> depth > 0);
               use_cloudscraper_first = (depth = 0 \<and> cloudscraper_session self)
           in case urlparse (host_ok e) current_url of
                None \<Rightarrow> c1
              | Some parsed \<Rightarrow>
                  if netloc parsed \<noteq> base_domain then c1
                  else
                    let add_to_scraped = (\<not> should_skip_content);
                        (page_data, self1, t1) =
                          scrape_page e cfg self (cr_clock c) current_url use_cloudscraper_first
                            add_to_scraped (Some base_domain)
                    in case page_data of
                         Some pd \<Rightarrow>
                           let self2 = delay_after_success self1;
                               slept = sleep_delay self2 (cr_slept c);
                               follow = should_follow cfg should_skip_content (pg_text pd);
                               queue2 =
                                 (if depth < max_depth \<and> follow
                                  then enqueue_links cfg (visited_urls self2) (pg_links pd) depth
                                         (cr_queue c1)
                                  else cr_queue c1)
                           in c1\<lparr>cr_self := self2, cr_queue := queue2, cr_clock := t1,
                                  cr_slept := slept,
                                  cr_fetched := cr_fetched c @ [(current_url, True)],
                                  cr_stopped := (int (length (scraped_pages self2)) \<ge> max_pages)\<rparr>
                       | None \<Rightarrow>
                           let self2 = delay_after_failure self1
                           in c1\<lparr>cr_self := self2, cr_clock := t1,
                                  cr_fetched := cr_fetched c @ [(current_url, False)],
                                  cr_stopped := (int (length (scraped_pages self2)) \<ge> max_pages)\<rparr>)"

text \<open>
  One step of the loop: the test of the \<open>while\<close>, then the body. A loop that has
  ended stays as it is.
\<close>

definition crawl_step ::
  "env \<Rightarrow> scraper_config \<Rightarrow> string \<Rightarrow> int \<Rightarrow> int \<Rightarrow> crawl \<Rightarrow> crawl" where
  "crawl_step e cfg base_domain max_depth max_pages c =
     (if cr_stopped c then c
      else if cr_queue c \<noteq> [] \<and> int (length (scraped_pages (cr_self c))) < max_pages
      then crawl_body e cfg base_domain max_depth max_pages c
      else c\<lparr>cr_stopped := True\<rparr>)"

fun crawl_run ::
  "nat \<Rightarrow> env \<Rightarrow> scraper_config \<Rightarrow> string \<Rightarrow> int \<Rightarrow> int \<Rightarrow> crawl \<Rightarrow> crawl" where
  "crawl_run 0 e cfg base_domain max_depth max_pages c = c"
| "crawl_run (Suc n) e cfg base_domain max_depth max_pages c =
     crawl_run n e cfg base_domain max_depth max_pages
       (crawl_step e cfg base_domain max_depth max_pages c)"

text \<open>\<open>x or default\<close> for an optional number.\<close>

definition or_default :: "int option \<Rightarrow> int \<Rightarrow> int" where
  "or_default x d = (case x of None \<Rightarrow> d | Some v \<Rightarrow> if v = 0 then d else v)"

text \<open>The state in which \<open>scrape_site\<close> enters its loop.\<close>

definition crawl_start :: "scraper \<Rightarrow> nat \<Rightarrow> string \<Rightarrow> crawl" where
  "crawl_start self t base_url =
     \<lparr>cr_self = self\<lparr>visited_urls := {}, scraped_pages := []\<rparr>,
      cr_queue = [(base_url, 0)], cr_clock = t, cr_slept = [], cr_fetched = [],
      cr_stopped = False\<rparr>"

text \<open>
  \<open>scrape_site\<close> with at most \<open>fuel\<close> steps of its loop: the list of pages, the scraper
  and the clock, or \<open>None\<close> when the loop has not ended within these steps.
\<close>

definition scrape_site ::
  "nat \<Rightarrow> env \<Rightarrow> scraper_config \<Rightarrow> scraper \<Rightarrow> nat \<Rightarrow> string \<Rightarrow> int option \<Rightarrow> int option
     \<Rightarrow> (page list \<times> scraper \<times> nat) option" where
  "scrape_site fuel e cfg self t base_url max_depth0 max_pages0 =
     (if \<not> is_valid_url e base_url then Some ([], self, t)
      else
        let max_depth = or_default max_depth0 (sc_max_depth cfg);
            max_pages = or_default max_pages0 (sc_max_pages_per_site cfg)
        in case urlparse (host_ok e) base_url of
             None \<Rightarrow> Some ([], self\<lparr>visited_urls := {}, scraped_pages := []\<rparr>, t)
           | Some parsed \<Rightarrow>
               let c = crawl_run fuel e cfg (netloc parsed) max_depth max_pages
                         (crawl_start self t base_url)
               in if cr_stopped c
                  then Some (scraped_pages (cr_self c), cr_self c, cr_clock c)
                  else None)"

subsection \<open>What the claims about the scraper speak of\<close>

text \<open>The host of a URL: its network location, when the URL parses.\<close>

definition netloc_of :: "env \<Rightarrow> string \<Rightarrow> string option" where
  "netloc_of e url = map_option netloc (urlparse (host_ok e) url)"

text \<open>
  The HTTP library reports as the URL of a response a URL that it has requested
  itself, hence one that parses.
\<close>

definition net_ok :: "env \<Rightarrow> bool" where
  "net_ok e = (\<forall>t c u a v r. net e t c u a v = Inr r \<longrightarrow> urlparse (host_ok e) (r_url r) \<noteq> None)"

text \<open>A response that the network has given.\<close>

definition from_net :: "env \<Rightarrow> response \<Rightarrow> bool" where
  "from_net e r = (\<exists>t c u a v. net e t c u a v = Inr r)"


text \<open>The attributes of the scraper that the adaptive delay reads and writes.\<close>

definition delay_state :: "scraper \<Rightarrow> real \<times> real \<times> real \<times> int \<times> int" where
  "delay_state s =
     (current_delay s, min_delay s, max_delay s, consecutive_errors s, consecutive_successes s)"

subsection \<open>A small site\<close>

text \<open>
  A configuration with the values of \<open>config.py\<close>, but one skip pattern only (the
  pattern \<open>/files/\<close>, which \<open>re.search\<close> finds where it occurs as a substring), two of
  the search terms and no minimal content length; and a scraper as \<open>__init__\<close> leaves it
  when cloudscraper is not installed.
\<close>

definition demo_config :: scraper_config where
  "demo_config =
     \<lparr>sc_max_depth = 10, sc_max_pages_per_site = 1500, sc_verify_ssl = True,
      sc_ssl_fallback_unverified = True, sc_ssl_retry_with_unverified = True,
      sc_skip_url_patterns = [py_in ''/files/''], sc_min_content_length = 0,
      sc_quick_content_check = True, sc_require_relevant_content = False,
      sc_search_terms = [''restorative justice'', ''race equity'']\<rparr>"

definition demo_scraper :: scraper where
  "demo_scraper =
     \<lparr>visited_urls = {}, scraped_pages = [], current_delay = 2, min_delay = 0.3,
      max_delay = 2, consecutive_errors = 0, consecutive_successes = 0,
      cloudscraper_session = False\<rparr>"

text \<open>
  The site \<open>ex.org\<close>. Its home page links to \<open>/b\<close>, \<open>/old\<close>, \<open>/c\<close> and \<open>/files/menu\<close>, the page
  \<open>/b\<close> links to \<open>/c\<close> and \<open>/old\<close>, every request of \<open>/c\<close> times out, \<open>/old\<close> redirects to \<open>/b\<close>
  and \<open>/out\<close> redirects to another host. The HTML of a page is abbreviated to a name.
\<close>

definition demo_response :: "int \<Rightarrow> string \<Rightarrow> string \<Rightarrow> string \<Rightarrow> response" where
  "demo_response code u loc html =
     \<lparr>r_status_code = code, r_url = u, r_location = loc, r_text = Some html,
      r_text_reencoded = None\<rparr>"

definition demo_net ::
  "nat \<Rightarrow> client \<Rightarrow> string \<Rightarrow> bool \<Rightarrow> bool option \<Rightarrow> exn + response" where
  "demo_net t c u allow_redirects verify =
     (if u = ''https://ex.org'' then Inr (demo_response 200 ''https://ex.org/'' [] ''home'')
      else if u = ''https://ex.org/b'' then Inr (demo_response 200 ''https://ex.org/b'' [] ''b'')
      else if u = ''https://ex.org/c'' then Inl (Timeout ''ex.org: read timed out'')
      else if u = ''https://ex.org/old''
      then (if allow_redirects then Inr (demo_response 200 ''https://ex.org/b'' [] ''b'')
            else Inr (demo_response 301 ''https://ex.org/old'' ''/b'' []))
      else if u = ''https://ex.org/out''
      then (if allow_redirects then Inr (demo_response 200 ''https://other.org/'' [] ''x'')
            else Inr (demo_response 302 ''https://ex.org/out'' ''https://other.org/'' []))
      else Inl (ConnectionError ''ex.org: connection refused''))"

definition demo_urljoin :: "string \<Rightarrow> string \<Rightarrow> string option" where
  "demo_urljoin base u = Some (if starts_with u ''/'' then ''https://ex.org'' @ u else u)"

definition demo_hrefs :: "parser \<Rightarrow> string \<Rightarrow> string list option" where
  "demo_hrefs p html =
     Some (if html = ''home''
           then [''/b'', ''/old'', ''https://ex.org/c'', ''https://ex.org/files/menu'']
           else if html = ''b'' then [''https://ex.org/c'', ''/old'']
           else [])"

definition demo_env :: env where
  "demo_env =
     \<lparr>net = demo_net, host_ok = any_host, urljoin = demo_urljoin, soup_hrefs = demo_hrefs,
      soup_text = (\<lambda>html. html)\<rparr>"


text \<open>
  A page behind bot protection. The session gets the challenge page of \<open>/p\<close>; the
  request of cloudscraper for \<open>/p\<close> is redirected to another host, which answers 404.
  The scraper has a cloudscraper session.
\<close>

definition bot_net ::
  "nat \<Rightarrow> client \<Rightarrow> string \<Rightarrow> bool \<Rightarrow> bool option \<Rightarrow> exn + response" where
  "bot_net t c u allow_redirects verify =
     (if u = ''https://ex.org/p''
      then (case c of
              Session \<Rightarrow> Inr (demo_response 200 ''https://ex.org/p'' [] ''Just a moment...'')
            | Cloudscraper \<Rightarrow> Inr (demo_response 404 ''https://evil.org/x'' [] ''EVIL''))
      else Inl (ConnectionError ''ex.org: connection refused''))"

definition bot_env :: env where
  "bot_env = demo_env\<lparr>net := bot_net\<rparr>"

definition bot_scraper :: scraper where
  "bot_scraper = demo_scraper\<lparr>cloudscraper_session := True\<rparr>"





section \<open>Properties of the cache canonicalizer\<close>

lemma of_char_lt_256: "(of_char c :: nat) < 256"
  by (metis of_char_mod_256 mod_less_divisor zero_less_numeral)

lemma lower_char_code:
  "(of_char (lower_char c) :: nat) =
     (if (65 \<le> (of_char c :: nat) \<and> (of_char c :: nat) \<le> 90)
          \<or> (192 \<le> (of_char c :: nat) \<and> (of_char c :: nat) \<le> 222 \<and> (of_char c :: nat) \<noteq> 215)
      then of_char c + 32 else of_char c)"
  by (auto simp: lower_char_def Let_def)

lemma lower_char_idem: "lower_char (lower_char c) = lower_char c"
proof -
  have "(of_char (lower_char (lower_char c)) :: nat) = of_char (lower_char c)"
    unfolding lower_char_code [of "lower_char c"] unfolding lower_char_code [of c]
    by auto
  then show ?thesis
    by (simp only: of_char_eq_iff)
qed

lemma lower_char_eq_iff:
  assumes "(of_char x :: nat) < 65 \<or> (90 < (of_char x :: nat) \<and> (of_char x :: nat) < 97)"
  shows "lower_char c = x \<longleftrightarrow> c = x"
proof -
  have "lower_char c = x \<longleftrightarrow> (of_char (lower_char c) :: nat) = of_char x"
    by (simp only: of_char_eq_iff)
  also have "\<dots> \<longleftrightarrow> (of_char c :: nat) = of_char x"
    unfolding lower_char_code using assms by auto
  also have "\<dots> \<longleftrightarrow> c = x"
    by (simp only: of_char_eq_iff)
  finally show ?thesis .
qed

lemma py_lower_idem: "py_lower (py_lower s) = py_lower s"
  by (simp add: py_lower_def lower_char_idem)

lemma in_set_py_lower:
  assumes "(of_char x :: nat) < 65 \<or> (90 < (of_char x :: nat) \<and> (of_char x :: nat) < 97)"
  shows "x \<in> set (py_lower s) \<longleftrightarrow> x \<in> set s"
proof -
  have "x \<in> set (py_lower s) \<longleftrightarrow> (\<exists>c\<in>set s. lower_char c = x)"
    by (auto simp: py_lower_def)
  also have "\<dots> \<longleftrightarrow> (\<exists>c\<in>set s. c = x)"
    by (simp only: lower_char_eq_iff [OF assms])
  also have "\<dots> \<longleftrightarrow> x \<in> set s"
    by auto
  finally show ?thesis .
qed

lemma py_lower_Nil_iff [simp]: "py_lower s = [] \<longleftrightarrow> s = []"
  by (simp add: py_lower_def)


lemma lower_char_delims [simp]:
  "lower_char c = CHR ''/'' \<longleftrightarrow> c = CHR ''/''"
  "lower_char c = CHR ''?'' \<longleftrightarrow> c = CHR ''?''"
  "lower_char c = CHR ''#'' \<longleftrightarrow> c = CHR ''#''"
  "lower_char c = CHR ''['' \<longleftrightarrow> c = CHR ''[''"
  "lower_char c = CHR '']'' \<longleftrightarrow> c = CHR '']''"
  "lower_char c = CHR 0x09 \<longleftrightarrow> c = CHR 0x09"
  "lower_char c = CHR 0x0A \<longleftrightarrow> c = CHR 0x0A"
  "lower_char c = CHR 0x0D \<longleftrightarrow> c = CHR 0x0D"
  by (rule lower_char_eq_iff, simp)+

lemma netloc_delim_lower [simp]: "netloc_delim (lower_char c) = netloc_delim c"
  by (simp add: netloc_delim_def)

lemma unsafe_char_lower [simp]: "unsafe_char (lower_char c) = unsafe_char c"
  by (simp add: unsafe_char_def)

lemma takeWhile_dropWhile_append:
  assumes "\<forall>x\<in>set xs. P x" "ys = [] \<or> \<not> P (hd ys)"
  shows "takeWhile P (xs @ ys) = xs" "dropWhile P (xs @ ys) = ys"
proof -
  have t: "takeWhile P ys = []" and d: "dropWhile P ys = ys"
    using assms(2) by (cases ys; simp)+
  show "takeWhile P (xs @ ys) = xs"
    using assms(1) t by (simp add: takeWhile_append2)
  show "dropWhile P (xs @ ys) = ys"
    using assms(1) d by (simp add: dropWhile_append2)
qed

lemma rstrip_slash_idem: "rstrip_slash (rstrip_slash s) = rstrip_slash s"
  by (simp add: rstrip_slash_def py_rstrip_def)

lemma set_rstrip_slash: "set (rstrip_slash s) \<subseteq> set s"
proof -
  have "set (dropWhile (\<lambda>c. c = CHR ''/'') (rev s)) \<subseteq> set (rev s)"
    by (meson set_dropWhileD subsetI)
  then show ?thesis
    by (simp add: rstrip_slash_def py_rstrip_def)
qed

lemma rstrip_slash_prefix: "\<exists>t. s = rstrip_slash s @ t"
proof -
  have "rev s = takeWhile (\<lambda>c. c = CHR ''/'') (rev s) @ dropWhile (\<lambda>c. c = CHR ''/'') (rev s)"
    by simp
  then have "rev (rev s) = rev (takeWhile (\<lambda>c. c = CHR ''/'') (rev s) @ dropWhile (\<lambda>c. c = CHR ''/'') (rev s))"
    by simp
  then have "s = rev (dropWhile (\<lambda>c. c = CHR ''/'') (rev s)) @ rev (takeWhile (\<lambda>c. c = CHR ''/'') (rev s))"
    by (simp only: rev_rev_ident rev_append)
  then show ?thesis
    unfolding rstrip_slash_def py_rstrip_def by blast
qed

lemma rstrip_slash_hd:
  assumes "s = [] \<or> hd s = CHR ''/''"
  shows "rstrip_slash s = [] \<or> hd (rstrip_slash s) = CHR ''/''"
proof -
  obtain t where t: "s = rstrip_slash s @ t"
    using rstrip_slash_prefix by blast
  show ?thesis
  proof (cases "rstrip_slash s = []")
    case True
    then show ?thesis by simp
  next
    case False
    then have "hd s = hd (rstrip_slash s)"
      using t by (metis hd_append2)
    moreover have "s \<noteq> []"
      using False t by auto
    ultimately show ?thesis
      using assms by simp
  qed
qed

lemma split_rest_sel [simp]:
  "s_scheme (split_rest sch nl url) = sch"
  "s_netloc (split_rest sch nl url) = nl"
  "s_path (split_rest sch nl url) = fst (split_query (fst (split_fragment url)))"
  "s_query (split_rest sch nl url) = snd (split_query (fst (split_fragment url)))"
  "s_fragment (split_rest sch nl url) = snd (split_fragment url)"
  by (simp_all add: split_rest_def split: prod.splits)

lemma set_before_first: "set (before_first c s) \<subseteq> set s"
  unfolding before_first_def by (meson set_takeWhileD subsetI)

lemma set_after_first: "set (after_first c s) \<subseteq> set s"
proof -
  have "set (drop 1 (dropWhile (\<lambda>x. x \<noteq> c) s)) \<subseteq> set (dropWhile (\<lambda>x. x \<noteq> c) s)"
    by (rule set_drop_subset)
  also have "\<dots> \<subseteq> set s"
    by (meson set_dropWhileD subsetI)
  finally show ?thesis
    by (simp add: after_first_def)
qed

lemma not_in_before_first: "c \<notin> set (before_first c s)"
  unfolding before_first_def by (auto dest: set_takeWhileD)

lemma split_fragment_facts:
  "set (fst (split_fragment url)) \<subseteq> set url"
  "CHR ''#'' \<notin> set (fst (split_fragment url))"
  using set_before_first [of "CHR ''#''" url] not_in_before_first [of "CHR ''#''" url]
  by (auto simp: split_fragment_def)

lemma split_query_facts:
  "set (fst (split_query url)) \<subseteq> set url"
  "set (snd (split_query url)) \<subseteq> set url"
  "CHR ''?'' \<notin> set (fst (split_query url))"
  using set_before_first [of "CHR ''?''" url] not_in_before_first [of "CHR ''?''" url]
    set_after_first [of "CHR ''?''" url]
  by (auto simp: split_query_def)

lemma path_part_facts:
  "set (fst (split_query (fst (split_fragment url)))) \<subseteq> set url"
  "CHR ''#'' \<notin> set (fst (split_query (fst (split_fragment url))))"
  "CHR ''?'' \<notin> set (fst (split_query (fst (split_fragment url))))"
  "set (snd (split_query (fst (split_fragment url)))) \<subseteq> set url"
  "CHR ''#'' \<notin> set (snd (split_query (fst (split_fragment url))))"
  using split_fragment_facts [of url] split_query_facts [of "fst (split_fragment url)"]
  by blast+

lemma path_part_hd:
  assumes "url = [] \<or> netloc_delim (hd url)"
  shows "fst (split_query (fst (split_fragment url))) = []
       \<or> hd (fst (split_query (fst (split_fragment url)))) = CHR ''/''"
proof (cases url)
  case Nil
  then show ?thesis
    by (simp add: split_fragment_def split_query_def)
next
  case (Cons c cs)
  then have "c = CHR ''/'' \<or> c = CHR ''?'' \<or> c = CHR ''#''"
    using assms by (simp add: netloc_delim_def)
  then show ?thesis
    using Cons
    by (auto simp: split_fragment_def split_query_def before_first_def after_first_def)
qed

lemma split_rest_roundtrip:
  assumes "CHR ''#'' \<notin> set pth" "CHR ''?'' \<notin> set pth" "CHR ''#'' \<notin> set q"
  shows "split_rest sch nl (pth @ (if q \<noteq> [] then CHR ''?'' # q else []))
           = \<lparr>s_scheme = sch, s_netloc = nl, s_path = pth, s_query = q, s_fragment = []\<rparr>"
proof (cases "q = []")
  case True
  then show ?thesis
    using assms by (simp add: split_rest_def split_fragment_def split_query_def)
next
  case False
  have p: "\<forall>x\<in>set pth. x \<noteq> CHR ''?''"
    using assms(2) by auto
  have t: "takeWhile (\<lambda>x. x \<noteq> CHR ''?'') (pth @ CHR ''?'' # q) = pth"
    by (rule takeWhile_dropWhile_append(1) [OF p]) simp
  have d: "dropWhile (\<lambda>x. x \<noteq> CHR ''?'') (pth @ CHR ''?'' # q) = CHR ''?'' # q"
    by (rule takeWhile_dropWhile_append(2) [OF p]) simp
  show ?thesis
    using assms False
    by (simp add: split_rest_def split_fragment_def split_query_def before_first_def
        after_first_def t d)
qed

lemma split_scheme_rest: "set (snd (split_scheme url)) \<subseteq> set url"
  using set_after_first [of "CHR '':''" url] by (auto simp: split_scheme_def Let_def)

lemma urlsplit_components:
  assumes "urlsplit h u = Some r"
  shows "(\<forall>c\<in>set (s_netloc r). \<not> netloc_delim c \<and> \<not> unsafe_char c)
       \<and> (\<forall>c\<in>set (s_path r). \<not> unsafe_char c \<and> c \<noteq> CHR ''#'' \<and> c \<noteq> CHR ''?'')
       \<and> (\<forall>c\<in>set (s_query r). \<not> unsafe_char c \<and> c \<noteq> CHR ''#'')
       \<and> (s_netloc r \<noteq> [] \<longrightarrow> s_path r = [] \<or> hd (s_path r) = CHR ''/'')"
proof -
  define url1 where "url1 = filter (\<lambda>c. \<not> unsafe_char c) (py_lstrip c0_or_space u)"
  obtain sch url2 where ss: "split_scheme url1 = (sch, url2)"
    by (cases "split_scheme url1") auto
  have safe1: "\<forall>c\<in>set url1. \<not> unsafe_char c"
    by (simp add: url1_def)
  have safe2: "\<forall>c\<in>set url2. \<not> unsafe_char c"
    using split_scheme_rest [of url1] safe1 ss by auto
  show ?thesis
  proof (cases "take 2 url2 = ''//''")
    case False
    then have r: "r = split_rest sch [] url2"
      using assms by (simp add: urlsplit_def url1_def [symmetric] ss Let_def)
    show ?thesis
      unfolding r split_rest_sel using path_part_facts [of url2] safe2 by auto
  next
    case True
    define nl where "nl = takeWhile (\<lambda>c. \<not> netloc_delim c) (drop 2 url2)"
    define url3 where "url3 = dropWhile (\<lambda>c. \<not> netloc_delim c) (drop 2 url2)"
    have sn: "splitnetloc url2 = (nl, url3)"
      by (simp add: splitnetloc_def nl_def url3_def)
    have r: "r = split_rest sch nl url3"
      using assms True
      by (simp add: urlsplit_def url1_def [symmetric] ss sn Let_def split: if_splits)
    have d2: "set (drop 2 url2) \<subseteq> set url2"
      by (rule set_drop_subset)
    have nl1: "\<forall>c\<in>set nl. \<not> netloc_delim c"
      unfolding nl_def by (auto dest: set_takeWhileD)
    have nl2: "\<forall>c\<in>set nl. \<not> unsafe_char c"
      unfolding nl_def using d2 safe2 by (auto dest!: set_takeWhileD)
    have safe3: "\<forall>c\<in>set url3. \<not> unsafe_char c"
      unfolding url3_def using d2 safe2 by (auto dest!: set_dropWhileD)
    have hd3: "url3 = [] \<or> netloc_delim (hd url3)"
      unfolding url3_def using hd_dropWhile [of "\<lambda>c. \<not> netloc_delim c" "drop 2 url2"] by auto
    show ?thesis
      unfolding r split_rest_sel
      using path_part_facts [of url3] safe3 nl1 nl2 path_part_hd [OF hd3] by auto
  qed
qed

lemma split_scheme_http:
  "split_scheme (''http'' @ ''://'' @ r) = (''http'', ''//'' @ r)"
  "split_scheme (''https'' @ ''://'' @ r) = (''https'', ''//'' @ r)"
  by (simp_all add: split_scheme_def before_first_def after_first_def ascii_alpha_def
      scheme_char_def py_lower_def lower_char_def Let_def)

lemma urlsplit_canonical:
  assumes s1: "s1 = ''http'' \<or> s1 = ''https''"
    and nl: "\<forall>c\<in>set nl. \<not> netloc_delim c \<and> \<not> unsafe_char c \<and> c \<noteq> CHR ''['' \<and> c \<noteq> CHR '']''"
    and pth: "\<forall>c\<in>set pth. \<not> unsafe_char c \<and> c \<noteq> CHR ''#'' \<and> c \<noteq> CHR ''?''"
    and pth_hd: "pth = [] \<or> hd pth = CHR ''/''"
    and q: "\<forall>c\<in>set q. \<not> unsafe_char c \<and> c \<noteq> CHR ''#''"
  shows "urlsplit h (s1 @ ''://'' @ nl @ pth @ (if q \<noteq> [] then CHR ''?'' # q else []))
           = Some \<lparr>s_scheme = s1, s_netloc = nl, s_path = pth, s_query = q, s_fragment = []\<rparr>"
proof -
  define tail where "tail = pth @ (if q \<noteq> [] then CHR ''?'' # q else [])"
  define url0 where "url0 = s1 @ ''://'' @ nl @ tail"
  have safe_tail: "\<forall>c\<in>set tail. \<not> unsafe_char c"
    using pth q by (auto simp: tail_def unsafe_char_def)
  have safe_s1: "\<forall>c\<in>set (s1 @ ''://''). \<not> unsafe_char c"
    using s1 by (auto simp: unsafe_char_def)
  have safe0: "\<forall>c\<in>set url0. \<not> unsafe_char c"
    using safe_tail safe_s1 nl unfolding url0_def by auto
  have ls: "py_lstrip c0_or_space url0 = url0"
    using s1 by (auto simp: url0_def py_lstrip_def c0_or_space_def)
  have f: "filter (\<lambda>c. \<not> unsafe_char c) url0 = url0"
    using safe0 by (simp add: filter_id_conv)
  have ss: "split_scheme url0 = (s1, ''//'' @ nl @ tail)"
    using s1 split_scheme_http [of "nl @ tail"] unfolding url0_def by auto
  have tl: "tail = [] \<or> \<not> (\<lambda>c. \<not> netloc_delim c) (hd tail)"
  proof (cases "pth = []")
    case False
    then show ?thesis
      using pth_hd by (simp add: tail_def netloc_delim_def)
  next
    case True
    then show ?thesis
      by (simp add: tail_def netloc_delim_def)
  qed
  have nd: "\<forall>c\<in>set nl. \<not> netloc_delim c"
    using nl by blast
  have sn: "splitnetloc (CHR ''/'' # CHR ''/'' # nl @ tail) = (nl, tail)"
    using takeWhile_dropWhile_append [OF nd tl] by (simp add: splitnetloc_def)
  have nv: "netloc_valid h nl"
    using nl by (auto simp: netloc_valid_def)
  have sr: "split_rest s1 nl tail
           = \<lparr>s_scheme = s1, s_netloc = nl, s_path = pth, s_query = q, s_fragment = []\<rparr>"
    unfolding tail_def by (rule split_rest_roundtrip) (use pth q in auto)
  have "urlsplit h url0
           = Some \<lparr>s_scheme = s1, s_netloc = nl, s_path = pth, s_query = q, s_fragment = []\<rparr>"
    by (simp add: urlsplit_def ls f ss sn nv sr Let_def)
  then show ?thesis
    by (simp add: url0_def tail_def)
qed

lemma last_segment_suffix:
  "url = take (length url - length (last_segment url)) url @ last_segment url"
proof -
  define k where "k = length (takeWhile (\<lambda>c. c \<noteq> CHR ''/'') (rev url))"
  have "takeWhile (\<lambda>c. c \<noteq> CHR ''/'') (rev url) = take k (rev url)"
    unfolding k_def by (rule takeWhile_eq_take)
  then have "last_segment url = rev (take k (rev url))"
    by (simp add: last_segment_def)
  also have "\<dots> = drop (length url - k) url"
    by (simp add: rev_take)
  finally have ls: "last_segment url = drop (length url - k) url" .
  have "k \<le> length url"
    unfolding k_def using length_takeWhile_le [of _ "rev url"] by simp
  then have "length (last_segment url) = k"
    using ls by simp
  then show ?thesis
    using ls by simp
qed

lemma before_first_prefix: "\<exists>t. s = before_first c s @ t"
  unfolding before_first_def by (metis takeWhile_dropWhile_id)

lemma splitparams_prefix: "\<exists>t. url = fst (splitparams url) @ t"
proof (cases "CHR ''/'' \<in> set url")
  case False
  then show ?thesis
    using before_first_prefix [of url "CHR '';''"] by (simp add: splitparams_def)
next
  case True
  define seg where "seg = last_segment url"
  define pre where "pre = take (length url - length seg) url"
  have u: "url = pre @ seg"
    unfolding pre_def seg_def by (rule last_segment_suffix)
  show ?thesis
  proof (cases "CHR '';'' \<in> set seg")
    case False
    then show ?thesis
      using True by (simp add: splitparams_def seg_def [symmetric] Let_def)
  next
    case semi: True
    obtain t where t: "seg = before_first CHR '';'' seg @ t"
      using before_first_prefix by blast
    have "fst (splitparams url) = pre @ before_first CHR '';'' seg"
      using True semi by (simp add: splitparams_def seg_def [symmetric] pre_def [symmetric] Let_def)
    then have "url = fst (splitparams url) @ t"
      using u t by simp
    then show ?thesis by blast
  qed
qed

lemma urlparse_SomeD:
  assumes "urlparse h u = Some p"
  shows "\<exists>r t. urlsplit h u = Some r \<and> scheme p = s_scheme r \<and> netloc p = s_netloc r
           \<and> query p = s_query r \<and> s_path r = path p @ t"
proof -
  obtain r where r: "urlsplit h u = Some r"
    using assms by (auto simp: urlparse_def split: option.splits)
  obtain t where t: "s_path r = fst (splitparams (s_path r)) @ t"
    using splitparams_prefix by blast
  have "scheme p = s_scheme r \<and> netloc p = s_netloc r \<and> query p = s_query r
          \<and> (path p = s_path r \<or> path p = fst (splitparams (s_path r)))"
    using assms r by (auto simp: urlparse_def Let_def split: if_splits prod.splits)
  then show ?thesis
    using r t by (metis append_Nil2)
qed

lemma urlparse_canonical:
  assumes "s1 = ''http'' \<or> s1 = ''https''"
    and "\<forall>c\<in>set nl. \<not> netloc_delim c \<and> \<not> unsafe_char c \<and> c \<noteq> CHR ''['' \<and> c \<noteq> CHR '']''"
    and "\<forall>c\<in>set pth. \<not> unsafe_char c \<and> c \<noteq> CHR ''#'' \<and> c \<noteq> CHR ''?''"
    and "pth = [] \<or> hd pth = CHR ''/''"
    and "\<forall>c\<in>set q. \<not> unsafe_char c \<and> c \<noteq> CHR ''#''"
    and "CHR '';'' \<notin> set pth"
  shows "urlparse h (s1 @ ''://'' @ nl @ pth @ (if q \<noteq> [] then CHR ''?'' # q else []))
           = Some \<lparr>scheme = s1, netloc = nl, path = pth, params = [], query = q, fragment = []\<rparr>"
  unfolding urlparse_def urlsplit_canonical [OF assms(1-5)]
  using assms(6) by simp

lemma urlsplit_scheme_lower:
  assumes "urlsplit h u = Some r"
  shows "py_lower (s_scheme r) = s_scheme r"
proof -
  define url1 where "url1 = filter (\<lambda>c. \<not> unsafe_char c) (py_lstrip c0_or_space u)"
  obtain sch url2 where ss: "split_scheme url1 = (sch, url2)"
    by (cases "split_scheme url1") auto
  have "py_lower sch = sch"
    using ss by (auto simp: split_scheme_def Let_def py_lower_idem split: if_splits)
  moreover have "s_scheme r = sch"
    using assms
    by (auto simp: urlsplit_def url1_def [symmetric] ss Let_def split: if_splits prod.splits)
  ultimately show ?thesis by simp
qed

lemma urlparse_Nil: "urlparse h [] = Some \<lparr>scheme = [], netloc = [], path = [], params = [],
    query = [], fragment = []\<rparr>"
  by (simp add: urlparse_def urlsplit_def py_lstrip_def split_scheme_def before_first_def
      split_rest_def split_fragment_def split_query_def uses_params_def Let_def)

text \<open>
  Where the canonicalizer is idempotent. Let \<open>urlparse\<close> accept the URL with a network location that
  is not empty and has no square bracket, and with a path without semicolon. Then the
  canonical form parses again into the scheme \<open>http\<close> or \<open>https\<close> (\<open>https\<close> when the URL
  has no scheme or another one), the network location in lower case, the path without
  its trailing slashes (the path \<open>/\<close> is kept), the query string unchanged, and neither
  parameters nor fragment; and the canonicalizer maps the canonical form to itself.
\<close>

lemma normalize_idempotent_with_netloc:
  assumes "urlparse h u = Some p"
    and "netloc p \<noteq> []"
    and "CHR ''['' \<notin> set (netloc p)" and "CHR '']'' \<notin> set (netloc p)"
    and "CHR '';'' \<notin> set (path p)"
  shows "urlparse h (normalize_url_for_cache h u) =
           Some \<lparr>scheme = (if scheme p = ''http'' then ''http'' else ''https''),
                 netloc = py_lower (netloc p),
                 path = (if path p = ''/'' then ''/'' else rstrip_slash (path p)),
                 params = [], query = query p, fragment = []\<rparr>
       \<and> normalize_url_for_cache h (normalize_url_for_cache h u) = normalize_url_for_cache h u"
proof -
  obtain r t where r: "urlsplit h u = Some r" "scheme p = s_scheme r" "netloc p = s_netloc r"
      "query p = s_query r" "s_path r = path p @ t"
    using urlparse_SomeD [OF assms(1)] by blast
  note C = urlsplit_components [OF r(1)]
  define s1 where "s1 = (if scheme p = ''http'' then ''http'' else ''https'')"
  define nl where "nl = py_lower (netloc p)"
  define pth where "pth = (if path p = ''/'' then ''/'' else rstrip_slash (path p))"
  define qs where "qs = query p"
  have u_ne: "u \<noteq> []"
    using assms(1,2) by (auto simp: urlparse_Nil)
  have sl: "py_lower (scheme p) = scheme p"
    using urlsplit_scheme_lower [OF r(1)] r(2) by simp
  have s1: "s1 = ''http'' \<or> s1 = ''https''"
    by (simp add: s1_def)
  have lit: "py_lower ''http'' = ''http''" "py_lower ''https'' = ''https''"
    by (simp_all add: py_lower_def lower_char_def)
  have N: "normalize_url_for_cache h u = s1 @ ''://'' @ nl @ pth @ (if qs \<noteq> [] then CHR ''?'' # qs else [])"
    using u_ne assms(2) sl
    by (auto simp add: normalize_url_for_cache_def assms(1) Let_def lit s1_def nl_def pth_def qs_def)
  have nlc: "\<forall>c\<in>set nl. \<not> netloc_delim c \<and> \<not> unsafe_char c \<and> c \<noteq> CHR ''['' \<and> c \<noteq> CHR '']''"
    using C assms(3,4) r(3) by (auto simp: nl_def py_lower_def)
  have pp: "\<forall>c\<in>set (path p). \<not> unsafe_char c \<and> c \<noteq> CHR ''#'' \<and> c \<noteq> CHR ''?''"
    using C r(5) by auto
  have sub: "set pth \<subseteq> set (path p)"
    using set_rstrip_slash [of "path p"] by (auto simp: pth_def)
  have pc: "\<forall>c\<in>set pth. \<not> unsafe_char c \<and> c \<noteq> CHR ''#'' \<and> c \<noteq> CHR ''?''"
    using pp sub by blast
  have php: "path p = [] \<or> hd (path p) = CHR ''/''"
  proof (cases "path p = []")
    case False
    then have "hd (s_path r) = hd (path p)" "s_path r \<noteq> []"
      using r(5) by auto
    then show ?thesis
      using C assms(2) r(3) by auto
  qed simp
  have ph: "pth = [] \<or> hd pth = CHR ''/''"
    using rstrip_slash_hd [OF php] by (auto simp: pth_def)
  have qc: "\<forall>c\<in>set qs. \<not> unsafe_char c \<and> c \<noteq> CHR ''#''"
    using C r(4) by (simp add: qs_def)
  have semi: "CHR '';'' \<notin> set pth"
    using assms(5) sub by blast
  have P: "urlparse h (normalize_url_for_cache h u) =
             Some \<lparr>scheme = s1, netloc = nl, path = pth, params = [], query = qs, fragment = []\<rparr>"
    unfolding N by (rule urlparse_canonical [OF s1 nlc pc ph qc semi])
  have N_ne: "normalize_url_for_cache h u \<noteq> []"
    using s1 unfolding N by auto
  have s1l: "py_lower s1 = s1"
    using s1 by (auto simp: py_lower_def lower_char_def)
  have nll: "py_lower nl = nl"
    by (simp add: nl_def py_lower_idem)
  have pthl: "pth \<noteq> ''/'' \<Longrightarrow> rstrip_slash pth = pth"
    by (auto simp: pth_def rstrip_slash_idem split: if_splits)
  have s1n: "s1 \<noteq> []"
    using s1 by auto
  have "normalize_url_for_cache h (normalize_url_for_cache h u)
          = s1 @ ''://'' @ nl @ pth @ (if qs \<noteq> [] then CHR ''?'' # qs else [])"
    using s1 N_ne
    by (auto simp add: normalize_url_for_cache_def [of h "normalize_url_for_cache h u"] P Let_def
        s1l nll pthl)
  then have I: "normalize_url_for_cache h (normalize_url_for_cache h u) = normalize_url_for_cache h u"
    using N by simp
  show ?thesis
    using P I by (simp add: s1_def nl_def pth_def qs_def)
qed

lemma normalize_idempotent_with_netloc_demo:
  "urlparse any_host (normalize_url_for_cache any_host ''//Example.COM/a/b/?x=1#top'') =
     Some \<lparr>scheme = ''https'', netloc = ''example.com'', path = ''/a/b'', params = [],
           query = ''x=1'', fragment = []\<rparr>
 \<and> normalize_url_for_cache any_host (normalize_url_for_cache any_host ''//Example.COM/a/b/?x=1#top'')
     = normalize_url_for_cache any_host ''//Example.COM/a/b/?x=1#top''
 \<and> normalize_url_for_cache any_host ''//Example.COM/a/b/?x=1#top'' = ''https://example.com/a/b?x=1''
 \<and> normalize_url_for_cache any_host ''http://ex.org/'' = ''http://ex.org/''"
proof -
  have p: "urlparse any_host ''//Example.COM/a/b/?x=1#top'' =
     Some \<lparr>scheme = [], netloc = ''Example.COM'', path = ''/a/b/'', params = [],
           query = ''x=1'', fragment = ''top''\<rparr>"
    by code_simp
  have l: "py_lower ''Example.COM'' = ''example.com''" "rstrip_slash ''/a/b/'' = ''/a/b''"
    by code_simp+
  have v: "normalize_url_for_cache any_host ''//Example.COM/a/b/?x=1#top'' = ''https://example.com/a/b?x=1''"
    "normalize_url_for_cache any_host ''http://ex.org/'' = ''http://ex.org/''"
    by code_simp+
  show ?thesis
    using normalize_idempotent_with_netloc [OF p] l v by simp
qed

text \<open>
  C6 fails on a URL without scheme. Without a scheme and two slashes \<open>urlparse\<close> takes
  the host as the path, and the canonicalizer lowers the network location only, not the
  path: the first pass moves the host into place with its capital letters, the second
  pass lowers it. So the result of the first pass is not a canonical form, and the URL
  and its own canonical form get different cache keys.
\<close>

theorem normalize_not_idempotent:
  "normalize_url_for_cache any_host ''Example.com'' = ''https://Example.com''
 \<and> normalize_url_for_cache any_host (normalize_url_for_cache any_host ''Example.com'')
      = ''https://example.com''
 \<and> normalize_url_for_cache any_host (normalize_url_for_cache any_host ''Example.com'')
      \<noteq> normalize_url_for_cache any_host ''Example.com''"
  by code_simp
section \<open>Properties of the URL cache\<close>

lemma normalize_key_set [simp]:
  "normalize_key h (URLCache_set h c u ps sid now) u2 = normalize_key h c u2"
  by (simp add: normalize_key_def URLCache_set_def Let_def)

lemma cache_set_fresh_lookup:
  assumes "uc_cache c = Map.empty"
  shows "uc_cache (URLCache_set h c u ps sid now) k =
           (if k = normalize_key h c u
            then Some \<lparr>ce_pages = ps, ce_scraped_at = now,
                       ce_schools = (if truthy_str sid then {the sid} else {})\<rparr>
            else None)"
  using assms by (simp add: URLCache_set_def Let_def)

text \<open>
  C10. On a cache without entries, after \<open>set(url, pages, sid)\<close> the call \<open>get(url2)\<close>
  returns the stored page list when \<open>url2\<close> has the canonical key of \<open>url\<close>, and \<open>None\<close>
  when its key is another one.
\<close>

theorem cache_get_after_set:
  assumes "uc_cache c = Map.empty"
  shows "(normalize_key h c u2 = normalize_key h c u \<longrightarrow>
            URLCache_get h (URLCache_set h c u ps sid now) u2 = Some ps)
       \<and> (normalize_key h c u2 \<noteq> normalize_key h c u \<longrightarrow>
            URLCache_get h (URLCache_set h c u ps sid now) u2 = None)"
  using assms by (simp add: URLCache_get_def cache_set_fresh_lookup Let_def)

theorem cache_get_after_set_witness:
  "URLCache_get any_host
     (URLCache_set any_host URLCache_init ''HTTPS://Ex.org/a/'' [demo_page] (Some ''s1'') ''t0'')
     ''https://ex.org/a'' = Some [demo_page]
   \<and> URLCache_get any_host
     (URLCache_set any_host URLCache_init ''HTTPS://Ex.org/a/'' [demo_page] (Some ''s1'') ''t0'')
     ''https://ex.org/b'' = None"
proof -
  have e: "uc_cache URLCache_init = Map.empty"
    by (simp add: URLCache_init_def)
  have k1: "normalize_key any_host URLCache_init ''https://ex.org/a''
              = normalize_key any_host URLCache_init ''HTTPS://Ex.org/a/''"
    by code_simp
  have k2: "normalize_key any_host URLCache_init ''https://ex.org/b''
              \<noteq> normalize_key any_host URLCache_init ''HTTPS://Ex.org/a/''"
    by code_simp
  show ?thesis
    using cache_get_after_set [OF e, of any_host "''https://ex.org/a''" "''HTTPS://Ex.org/a/''"
            "[demo_page]" "Some ''s1''" "''t0''"]
          cache_get_after_set [OF e, of any_host "''https://ex.org/b''" "''HTTPS://Ex.org/a/''"
            "[demo_page]" "Some ''s1''" "''t0''"] k1 k2
    by simp
qed

lemma cache_set_existing_lookup:
  assumes "uc_cache c (normalize_key h c u) = Some e"
  shows "uc_cache (URLCache_set h c u ps sid now) k =
           (if k = normalize_key h c u
            then Some (e\<lparr>ce_schools := (if truthy_str sid then insert (the sid) (ce_schools e)
                                          else ce_schools e)\<rparr>)
            else uc_cache c k)"
  using assms by (auto simp add: URLCache_set_def Let_def dom_def)

text \<open>
  C7, as the code has it. When the canonical key of the URL already has an entry,
  \<open>set\<close> with any page list keeps the stored page list and the time stamp, leaves every
  other entry alone, and adds the school id to the entry's set of schools when the id is
  given and is not the empty string; so \<open>get\<close> still returns the pages stored first.
\<close>

theorem cache_set_keeps_pages:
  assumes "uc_cache c (normalize_key h c u) = Some e"
  shows "uc_cache (URLCache_set h c u ps sid now) (normalize_key h c u) =
           Some (e\<lparr>ce_schools := (case sid of
                                     None \<Rightarrow> ce_schools e
                                   | Some s \<Rightarrow> if s \<noteq> [] then insert s (ce_schools e)
                                              else ce_schools e)\<rparr>)
       \<and> (\<forall>k. k \<noteq> normalize_key h c u \<longrightarrow>
              uc_cache (URLCache_set h c u ps sid now) k = uc_cache c k)
       \<and> URLCache_get h (URLCache_set h c u ps sid now) u = Some (ce_pages e)
       \<and> URLCache_get h (URLCache_set h c u ps sid now) u = URLCache_get h c u"
  using assms
  by (cases sid) (simp_all add: cache_set_existing_lookup URLCache_get_def truthy_str_def Let_def)

theorem cache_set_keeps_pages_witness:
  "URLCache_get any_host
     (URLCache_set any_host demo_cache ''https://ex.org/a'' [] (Some ''s2'') ''t1'') ''https://ex.org/a''
     = Some [demo_page]
   \<and> get_schools_for_url any_host
       (URLCache_set any_host demo_cache ''https://ex.org/a'' [] (Some ''s2'') ''t1'') ''https://ex.org/a''
     = {''s2''}"
proof -
  have k: "normalize_key any_host demo_cache ''https://ex.org/a'' = ''https://ex.org/a''"
    by code_simp
  have k0: "normalize_key any_host URLCache_init ''HTTPS://Ex.org/a/'' = ''https://ex.org/a''"
    by code_simp
  have e0: "uc_cache URLCache_init = Map.empty"
    by (simp add: URLCache_init_def)
  have e: "uc_cache demo_cache (normalize_key any_host demo_cache ''https://ex.org/a'')
             = Some \<lparr>ce_pages = [demo_page], ce_scraped_at = ''t0'', ce_schools = {}\<rparr>"
    unfolding k by (simp add: demo_cache_def cache_set_fresh_lookup [OF e0] k0 truthy_str_def)
  show ?thesis
    using cache_set_keeps_pages [OF e, of "[]" "Some ''s2''" "''t1''"]
    by (simp add: get_schools_for_url_def k)
qed

text \<open>
  The school id is tested for truth, not for \<open>None\<close>: the empty string is given, and is
  not added.
\<close>

theorem cache_set_empty_id_counterexample:
  "get_schools_for_url any_host
     (URLCache_set any_host demo_cache ''https://ex.org/a'' [] (Some []) ''t1'') ''https://ex.org/a''
     = {}"
proof -
  have k: "normalize_key any_host demo_cache ''https://ex.org/a'' = ''https://ex.org/a''"
    by code_simp
  have k0: "normalize_key any_host URLCache_init ''HTTPS://Ex.org/a/'' = ''https://ex.org/a''"
    by code_simp
  have e0: "uc_cache URLCache_init = Map.empty"
    by (simp add: URLCache_init_def)
  have e: "uc_cache demo_cache (normalize_key any_host demo_cache ''https://ex.org/a'')
             = Some \<lparr>ce_pages = [demo_page], ce_scraped_at = ''t0'', ce_schools = {}\<rparr>"
    unfolding k by (simp add: demo_cache_def cache_set_fresh_lookup [OF e0] k0 truthy_str_def)
  show ?thesis
    using e by (simp add: get_schools_for_url_def k cache_set_existing_lookup truthy_str_def)
qed

section \<open>Properties of the aggregation\<close>

lemma is_set_E: "is_set v \<Longrightarrow> \<exists>s. v = Some (StrSet s)"
  by (auto simp: is_set_def split: option.splits aggval.splits)
lemma is_list_E: "is_list v \<Longrightarrow> \<exists>s. v = Some (StrList s)"
  by (auto simp: is_list_def split: option.splits aggval.splits)
lemma is_count_E: "is_count v \<Longrightarrow> \<exists>s. v = Some (Count s)"
  by (auto simp: is_count_def split: option.splits aggval.splits)
lemma is_snippets_E: "is_snippets v \<Longrightarrow> \<exists>s. v = Some (Snippets s)"
  by (auto simp: is_snippets_def split: option.splits aggval.splits)

lemma same_kind_is:
  assumes "same_kind v w"
  shows "is_set (Some v) \<Longrightarrow> is_set (Some w)" "is_list (Some v) \<Longrightarrow> is_list (Some w)"
        "is_count (Some v) \<Longrightarrow> is_count (Some w)" "is_snippets (Some v) \<Longrightarrow> is_snippets (Some w)"
  using assms by (auto simp: same_kind_def is_set_def is_list_def is_count_def is_snippets_def split: aggval.splits)

lemma dom_init: "dom (aggregated_init n) = aggregated_keys"
  unfolding aggregated_init_def aggregated_keys_def by (simp only: dom_fun_upd dom_empty option.simps if_False) 

lemma loop_shape_init: "loop_shape n (aggregated_init n)"
  unfolding loop_shape_def
  apply (simp only: dom_init)
  apply (simp add: aggregated_init_def is_set_def is_list_def is_count_def is_snippets_def)
  done

lemma dom_upd_same: "d k = Some v \<Longrightarrow> dom (d(k \<mapsto> w)) = dom d"
  by auto

lemma kind_upd:
   "d k = Some v \<Longrightarrow> same_kind v w \<Longrightarrow> is_set (d k') \<Longrightarrow> is_set ((d(k \<mapsto> w)) k')"
   "d k = Some v \<Longrightarrow> same_kind v w \<Longrightarrow> is_list (d k') \<Longrightarrow> is_list ((d(k \<mapsto> w)) k')"
   "d k = Some v \<Longrightarrow> same_kind v w \<Longrightarrow> is_count (d k') \<Longrightarrow> is_count ((d(k \<mapsto> w)) k')"
   "d k = Some v \<Longrightarrow> same_kind v w \<Longrightarrow> is_snippets (d k') \<Longrightarrow> is_snippets ((d(k \<mapsto> w)) k')"
  using same_kind_is by (cases "k' = k"; simp; blast)+

lemma upd_shape:
  assumes "loop_shape n d" "d k = Some v" "same_kind v w" "k \<noteq> ''pages_with_terms''"
  shows "loop_shape n (d(k \<mapsto> w))"
proof -
  have dm: "dom (d(k \<mapsto> w)) = dom d"
    using assms(2) by auto
  have pw: "(d(k \<mapsto> w)) ''pages_with_terms'' = d ''pages_with_terms''"
    using assms(4) by simp
  have ks: "\<And>k'. is_set (d k') \<Longrightarrow> is_set ((d(k \<mapsto> w)) k')"
    using kind_upd(1) [of d k v w] assms(2,3) by blast
  have kl: "\<And>k'. is_list (d k') \<Longrightarrow> is_list ((d(k \<mapsto> w)) k')"
    using kind_upd(2) [of d k v w] assms(2,3) by blast
  have kc: "\<And>k'. is_count (d k') \<Longrightarrow> is_count ((d(k \<mapsto> w)) k')"
    using kind_upd(3) [of d k v w] assms(2,3) by blast
  have kn: "\<And>k'. is_snippets (d k') \<Longrightarrow> is_snippets ((d(k \<mapsto> w)) k')"
    using kind_upd(4) [of d k v w] assms(2,3) by blast
  show ?thesis
    unfolding loop_shape_def dm pw
    using assms(1) [unfolded loop_shape_def] ks kl kc kn by blast
qed

lemma set_update_ok:
  assumes "loop_shape n d" "is_set (d k)" "k \<noteq> ''pages_with_terms''"
  shows "\<exists>d'. set_update k xs d = Some d' \<and> loop_shape n d'"
proof -
  obtain s where s: "d k = Some (StrSet s)"
    using is_set_E [OF assms(2)] by blast
  have "loop_shape n (d(k \<mapsto> StrSet (s \<union> set xs)))"
    by (rule upd_shape [OF assms(1) s _ assms(3)]) (simp add: same_kind_def)
  then show ?thesis
    by (simp add: set_update_def s)
qed

lemma list_append_ok:
  assumes "loop_shape n d" "is_list (d k)" "k \<noteq> ''pages_with_terms''"
  shows "\<exists>d'. list_append k x d = Some d' \<and> loop_shape n d'"
proof -
  obtain l where l: "d k = Some (StrList l)"
    using is_list_E [OF assms(2)] by blast
  have "loop_shape n (d(k \<mapsto> StrList (l @ [x])))"
    by (rule upd_shape [OF assms(1) l _ assms(3)]) (simp add: same_kind_def)
  then show ?thesis
    by (simp add: list_append_def l)
qed

lemma count_add_ok:
  assumes "loop_shape n d" "is_count (d k)" "k \<noteq> ''pages_with_terms''"
  shows "\<exists>d'. count_add k i d = Some d' \<and> loop_shape n d'"
proof -
  obtain c where c: "d k = Some (Count c)"
    using is_count_E [OF assms(2)] by blast
  have "loop_shape n (d(k \<mapsto> Count (c + i)))"
    by (rule upd_shape [OF assms(1) c _ assms(3)]) (simp add: same_kind_def)
  then show ?thesis
    by (simp add: count_add_def c)
qed

lemma snippets_extend_ok:
  assumes "loop_shape n d" "is_snippets (d k)" "k \<noteq> ''pages_with_terms''"
  shows "\<exists>d'. snippets_extend k xs d = Some d' \<and> loop_shape n d'"
proof -
  obtain l where l: "d k = Some (Snippets l)"
    using is_snippets_E [OF assms(2)] by blast
  have "loop_shape n (d(k \<mapsto> Snippets (l @ xs)))"
    by (rule upd_shape [OF assms(1) l _ assms(3)]) (simp add: same_kind_def)
  then show ?thesis
    by (simp add: snippets_extend_def l)
qed

lemma loop_shape_D:
  assumes "loop_shape n d"
  shows "is_set (d ''terms_found'')" "is_set (d ''school_terms_found'')"
    "is_set (d ''district_terms_found'')"
    "is_list (d ''page_urls'')" "is_list (d ''school_page_urls'')"
    "is_list (d ''district_page_urls'')"
    "is_count (d ''total_occurrences'')" "is_count (d ''school_total_occurrences'')"
    "is_count (d ''district_total_occurrences'')"
    "is_count (d ''school_pages_with_terms'')" "is_count (d ''district_pages_with_terms'')"
    "is_snippets (d ''context_snippets'')"
    "d ''pages_with_terms'' = Some (Count (int n))"
    "dom d = aggregated_keys"
  using assms unfolding loop_shape_def by blast+

lemma by_source_school_ok:
  assumes "loop_shape n d"
  shows "\<exists>d'. by_source ''school'' r d = Some d' \<and> loop_shape n d'"
proof -
  obtain d1 where d1: "set_update ''school_terms_found'' (sr_terms_found r) d = Some d1" "loop_shape n d1"
    using set_update_ok [OF assms loop_shape_D(2) [OF assms]] by auto
  obtain d2 where d2: "list_append ''school_page_urls'' (sr_url r) d1 = Some d2" "loop_shape n d2"
    using list_append_ok [OF d1(2) loop_shape_D(5) [OF d1(2)]] by auto
  obtain d3 where d3: "count_add ''school_total_occurrences'' (sr_total_matches r) d2 = Some d3" "loop_shape n d3"
    using count_add_ok [OF d2(2) loop_shape_D(8) [OF d2(2)]] by auto
  obtain d4 where d4: "count_add ''school_pages_with_terms'' 1 d3 = Some d4" "loop_shape n d4"
    using count_add_ok [OF d3(2) loop_shape_D(10) [OF d3(2)]] by auto
  show ?thesis
    using d1 d2 d3 d4 by (simp add: by_source_def)
qed

lemma by_source_district_ok:
  assumes "loop_shape n d"
  shows "\<exists>d'. by_source ''district'' r d = Some d' \<and> loop_shape n d'"
proof -
  obtain d1 where d1: "set_update ''district_terms_found'' (sr_terms_found r) d = Some d1" "loop_shape n d1"
    using set_update_ok [OF assms loop_shape_D(3) [OF assms]] by auto
  obtain d2 where d2: "list_append ''district_page_urls'' (sr_url r) d1 = Some d2" "loop_shape n d2"
    using list_append_ok [OF d1(2) loop_shape_D(6) [OF d1(2)]] by auto
  obtain d3 where d3: "count_add ''district_total_occurrences'' (sr_total_matches r) d2 = Some d3" "loop_shape n d3"
    using count_add_ok [OF d2(2) loop_shape_D(9) [OF d2(2)]] by auto
  obtain d4 where d4: "count_add ''district_pages_with_terms'' 1 d3 = Some d4" "loop_shape n d4"
    using count_add_ok [OF d3(2) loop_shape_D(11) [OF d3(2)]] by auto
  show ?thesis
    using d1 d2 d3 d4 by (simp add: by_source_def)
qed

lemma aggregate_step_ok:
  assumes "loop_shape n d"
  shows "\<exists>d'. aggregate_step r d = Some d' \<and> loop_shape n d'"
proof -
  obtain d1 where d1: "set_update ''terms_found'' (sr_terms_found r) d = Some d1" "loop_shape n d1"
    using set_update_ok [OF assms loop_shape_D(1) [OF assms]] by auto
  obtain d2 where d2: "list_append ''page_urls'' (sr_url r) d1 = Some d2" "loop_shape n d2"
    using list_append_ok [OF d1(2) loop_shape_D(4) [OF d1(2)]] by auto
  obtain d3 where d3: "count_add ''total_occurrences'' (sr_total_matches r) d2 = Some d3" "loop_shape n d3"
    using count_add_ok [OF d2(2) loop_shape_D(7) [OF d2(2)]] by auto
  define src where "src = (case sr_source r of None \<Rightarrow> ''unknown'' | Some x \<Rightarrow> x)"
  obtain d4 where d4: "(if src = ''school'' then by_source ''school'' r d3
                  else if src = ''district'' then by_source ''district'' r d3
                  else Some d3) = Some d4" "loop_shape n d4"
    using by_source_school_ok [OF d3(2), of r] by_source_district_ok [OF d3(2), of r] d3(2)
    by (cases "src = ''school''"; cases "src = ''district''"; auto)
  obtain d5 where d5: "snippets_extend ''context_snippets''
             (map (\<lambda>occ. \<lparr>sn_term = oc_term occ, sn_context = oc_context occ,
                           sn_url = sr_url r, sn_source = src\<rparr>)
                  (sr_occurrences r)) d4 = Some d5" "loop_shape n d5"
    using snippets_extend_ok [OF d4(2) loop_shape_D(12) [OF d4(2)]] by auto
  show ?thesis
    unfolding aggregate_step_def Let_def src_def [symmetric]
    using d1 d2 d3 d4 d5 by simp
qed

lemma aggregate_loop_ok:
  "loop_shape n d \<Longrightarrow> \<exists>d'. aggregate_loop rs d = Some d' \<and> loop_shape n d'"
proof (induction rs arbitrary: d)
  case Nil
  then show ?case by simp
next
  case (Cons r rs)
  obtain d1 where d1: "aggregate_step r d = Some d1" "loop_shape n d1"
    using aggregate_step_ok [OF Cons.prems] by auto
  show ?case
    using Cons.IH [OF d1(2)] d1(1) by simp
qed

lemma ensure_key_present: "k \<in> dom d \<Longrightarrow> ensure_key k v d = d"
  by (simp add: ensure_key_def)

lemma sort_set_lookup:
  "d k = Some (StrSet s) \<Longrightarrow> sort_set k d = Some (d(k \<mapsto> StrList (sorted_list_of_set s)))"
  by (simp add: sort_set_def)

lemma aggregate_results_shape:
  "\<exists>d. aggregate_results rs = Some d \<and> dom d = aggregated_keys
       \<and> has_rollup [] d \<and> has_rollup ''school_'' d \<and> has_rollup ''district_'' d
       \<and> d ''pages_with_terms'' = Some (Count (int (length rs)))"
proof -
  obtain d where d: "aggregate_loop rs (aggregated_init (length rs)) = Some d"
      "loop_shape (length rs) d"
    using aggregate_loop_ok [OF loop_shape_init] by blast
  note D = loop_shape_D [OF d(2)]
  obtain s1 where s1: "d ''terms_found'' = Some (StrSet s1)"
    using is_set_E [OF D(1)] by blast
  obtain s2 where s2: "d ''school_terms_found'' = Some (StrSet s2)"
    using is_set_E [OF D(2)] by blast
  obtain s3 where s3: "d ''district_terms_found'' = Some (StrSet s3)"
    using is_set_E [OF D(3)] by blast
  obtain l1 where l1: "d ''page_urls'' = Some (StrList l1)"
    using is_list_E [OF D(4)] by blast
  obtain l2 where l2: "d ''school_page_urls'' = Some (StrList l2)"
    using is_list_E [OF D(5)] by blast
  obtain l3 where l3: "d ''district_page_urls'' = Some (StrList l3)"
    using is_list_E [OF D(6)] by blast
  obtain c1 where c1: "d ''total_occurrences'' = Some (Count c1)"
    using is_count_E [OF D(7)] by blast
  obtain c2 where c2: "d ''school_total_occurrences'' = Some (Count c2)"
    using is_count_E [OF D(8)] by blast
  obtain c3 where c3: "d ''district_total_occurrences'' = Some (Count c3)"
    using is_count_E [OF D(9)] by blast
  obtain c4 where c4: "d ''school_pages_with_terms'' = Some (Count c4)"
    using is_count_E [OF D(10)] by blast
  obtain c5 where c5: "d ''district_pages_with_terms'' = Some (Count c5)"
    using is_count_E [OF D(11)] by blast
  define d3 where "d3 = d(''terms_found'' \<mapsto> StrList (sorted_list_of_set s1),
     ''school_terms_found'' \<mapsto> StrList (sorted_list_of_set s2),
     ''district_terms_found'' \<mapsto> StrList (sorted_list_of_set s3))"
  have r: "aggregate_results rs = Some d3"
    by (simp add: aggregate_results_def d(1) sort_set_def s1 s2 s3 d3_def)
  have dm: "dom d3 = aggregated_keys"
    using D(14) s1 s2 s3 unfolding d3_def by auto
  have h1: "has_rollup [] d3"
    by (simp add: has_rollup_def d3_def l1 c1 D(13))
  have h2: "has_rollup ''school_'' d3"
    by (simp add: has_rollup_def d3_def l2 c2 c4)
  have h3: "has_rollup ''district_'' d3"
    by (simp add: has_rollup_def d3_def l3 c3 c5)
  have pw: "d3 ''pages_with_terms'' = Some (Count (int (length rs)))"
    by (simp add: d3_def D(13))
  show ?thesis
    using r dm h1 h2 h3 pw by blast
qed

lemma search_school_content_eq:
  "search_school_content cfg pages terms =
     aggregate_results (search_pages (TermSearcher_init cfg terms None) pages)"
proof -
  obtain d where d: "aggregate_results (search_pages (TermSearcher_init cfg terms None) pages) = Some d"
     "dom d = aggregated_keys"
    using aggregate_results_shape by blast
  have k: "''school_terms_found'' \<in> dom d" "''school_page_urls'' \<in> dom d"
     "''school_total_occurrences'' \<in> dom d" "''school_pages_with_terms'' \<in> dom d"
     "''district_terms_found'' \<in> dom d" "''district_page_urls'' \<in> dom d"
     "''district_total_occurrences'' \<in> dom d" "''district_pages_with_terms'' \<in> dom d"
    unfolding d(2) aggregated_keys_def by simp_all
  show ?thesis
    by (simp add: search_school_content_def Let_def d(1) ensure_key_present k)
qed

subsection \<open>The values of the roll-ups\<close>

lemma loop_vals_init: "loop_vals n [] (aggregated_init n)"
  by (simp add: loop_vals_def aggregated_init_def from_source_def)

lemma source_school:
  "((case sr_source r of None \<Rightarrow> ''unknown'' | Some x \<Rightarrow> x) = ''school'')
     = (sr_source r = Some ''school'')"
  by (cases "sr_source r") simp_all

lemma source_district:
  "((case sr_source r of None \<Rightarrow> ''unknown'' | Some x \<Rightarrow> x) = ''district'')
     = (sr_source r = Some ''district'')"
  by (cases "sr_source r") simp_all

lemma from_source_snoc:
  "from_source src (rs @ [r]) =
     (if sr_source r = Some src then from_source src rs @ [r] else from_source src rs)"
  by (simp add: from_source_def)

lemma aggregate_step_vals:
  assumes "loop_vals n rs d"
  shows "\<exists>d'. aggregate_step r d = Some d' \<and> loop_vals n (rs @ [r]) d'"
proof -
  have E: "d ''terms_found'' = Some (StrSet (set (concat (map sr_terms_found rs))))"
    "d ''page_urls'' = Some (StrList (map sr_url rs))"
    "d ''total_occurrences'' = Some (Count (sum_list (map sr_total_matches rs)))"
    "d ''pages_with_terms'' = Some (Count (int n))"
    "d ''school_terms_found'' =
        Some (StrSet (set (concat (map sr_terms_found (from_source ''school'' rs)))))"
    "d ''school_page_urls'' = Some (StrList (map sr_url (from_source ''school'' rs)))"
    "d ''school_total_occurrences'' =
        Some (Count (sum_list (map sr_total_matches (from_source ''school'' rs))))"
    "d ''school_pages_with_terms'' = Some (Count (int (length (from_source ''school'' rs))))"
    "d ''district_terms_found'' =
        Some (StrSet (set (concat (map sr_terms_found (from_source ''district'' rs)))))"
    "d ''district_page_urls'' = Some (StrList (map sr_url (from_source ''district'' rs)))"
    "d ''district_total_occurrences'' =
        Some (Count (sum_list (map sr_total_matches (from_source ''district'' rs))))"
    "d ''district_pages_with_terms'' =
        Some (Count (int (length (from_source ''district'' rs))))"
    "d ''context_snippets'' = Some (Snippets (concat (map snippets_of rs)))"
    using assms unfolding loop_vals_def by simp_all
  consider (school) "sr_source r = Some ''school''"
    | (district) "sr_source r = Some ''district''"
    | (other) "sr_source r \<noteq> Some ''school''" "sr_source r \<noteq> Some ''district''"
    by blast
  then show ?thesis
  proof cases
    case school
    then show ?thesis
      by (simp add: aggregate_step_def by_source_def set_update_def list_append_def
          count_add_def snippets_extend_def Let_def E loop_vals_def from_source_snoc
          snippets_of_def Un_commute)
  next
    case district
    then show ?thesis
      by (simp add: aggregate_step_def by_source_def set_update_def list_append_def
          count_add_def snippets_extend_def Let_def E loop_vals_def from_source_snoc
          snippets_of_def Un_commute)
  next
    case other
    then show ?thesis
      by (simp add: aggregate_step_def by_source_def set_update_def list_append_def
          count_add_def snippets_extend_def Let_def E loop_vals_def from_source_snoc
          snippets_of_def Un_commute source_school source_district)
  qed
qed

lemma aggregate_loop_vals:
  "loop_vals n done d \<Longrightarrow> \<exists>d'. aggregate_loop rs d = Some d' \<and> loop_vals n (done @ rs) d'"
proof (induction rs arbitrary: d "done")
  case Nil
  then show ?case by simp
next
  case (Cons r rs)
  obtain d1 where d1: "aggregate_step r d = Some d1" "loop_vals n (done @ [r]) d1"
    using aggregate_step_vals [OF Cons.prems] by blast
  show ?case
    using Cons.IH [OF d1(2)] d1(1) by simp
qed

lemma aggregate_results_vals:
  "\<exists>d. aggregate_results rs = Some d
       \<and> rollup_of [] rs d
       \<and> rollup_of ''school_'' (from_source ''school'' rs) d
       \<and> rollup_of ''district_'' (from_source ''district'' rs) d
       \<and> d ''context_snippets'' = Some (Snippets (concat (map snippets_of rs)))"
proof -
  obtain d where d: "aggregate_loop rs (aggregated_init (length rs)) = Some d"
      "loop_vals (length rs) rs d"
    using aggregate_loop_vals [OF loop_vals_init, where rs = rs and n = "length rs"] by auto
  have E: "d ''terms_found'' = Some (StrSet (set (concat (map sr_terms_found rs))))"
    "d ''page_urls'' = Some (StrList (map sr_url rs))"
    "d ''total_occurrences'' = Some (Count (sum_list (map sr_total_matches rs)))"
    "d ''pages_with_terms'' = Some (Count (int (length rs)))"
    "d ''school_terms_found'' =
        Some (StrSet (set (concat (map sr_terms_found (from_source ''school'' rs)))))"
    "d ''school_page_urls'' = Some (StrList (map sr_url (from_source ''school'' rs)))"
    "d ''school_total_occurrences'' =
        Some (Count (sum_list (map sr_total_matches (from_source ''school'' rs))))"
    "d ''school_pages_with_terms'' = Some (Count (int (length (from_source ''school'' rs))))"
    "d ''district_terms_found'' =
        Some (StrSet (set (concat (map sr_terms_found (from_source ''district'' rs)))))"
    "d ''district_page_urls'' = Some (StrList (map sr_url (from_source ''district'' rs)))"
    "d ''district_total_occurrences'' =
        Some (Count (sum_list (map sr_total_matches (from_source ''district'' rs))))"
    "d ''district_pages_with_terms'' =
        Some (Count (int (length (from_source ''district'' rs))))"
    "d ''context_snippets'' = Some (Snippets (concat (map snippets_of rs)))"
    using d(2) unfolding loop_vals_def by simp_all
  show ?thesis
    by (simp add: aggregate_results_def d(1) sort_set_def E rollup_of_def)
qed

text \<open>
  C3, as the code has it. For every list of results, the empty one included,
  \<open>aggregate_results\<close> returns a dictionary with exactly the thirteen keys of the source,
  and \<open>search_school_content\<close> returns the dictionary that \<open>aggregate_results\<close> returns
  on the results of \<open>search_pages\<close>. The dictionary holds three roll-ups, each with its
  sorted list of terms, its list of page URLs, its count of occurrences and its count
  of pages with terms: the combined one holds the values of all results, the one of
  the school those of the results with source \<open>school\<close>, the one of the district those
  of the results with source \<open>district\<close>. There is no roll-up for the source \<open>unknown\<close>:
  a result of any other source than school and district is counted in the combined
  roll-up only. The context snippets are those of all results.
\<close>

theorem aggregate_three_rollups:
  "(\<exists>d. aggregate_results rs = Some d \<and> dom d = aggregated_keys
       \<and> has_rollup [] d \<and> has_rollup ''school_'' d \<and> has_rollup ''district_'' d
       \<and> rollup_of [] rs d
       \<and> rollup_of ''school_'' (from_source ''school'' rs) d
       \<and> rollup_of ''district_'' (from_source ''district'' rs) d
       \<and> d ''context_snippets'' = Some (Snippets (concat (map snippets_of rs))))
 \<and> search_school_content cfg pages terms =
      aggregate_results (search_pages (TermSearcher_init cfg terms None) pages)"
  using aggregate_results_shape [of rs] aggregate_results_vals [of rs]
  unfolding search_school_content_eq by auto

text \<open>
  On the empty list of results there is no fourth roll-up: no key of the dictionary
  starts with \<open>unknown_\<close>.
\<close>

theorem aggregate_unknown_counterexample:
  "\<not> rollup_present ''unknown_'' (aggregate_results [])
 \<and> agg_lookup ''unknown_terms_found'' (aggregate_results []) = None
 \<and> agg_lookup ''unknown_pages_with_terms'' (aggregate_results []) = None"
  by (simp add: aggregate_results_def aggregated_init_def sort_set_def has_rollup_def
      rollup_present_def agg_lookup_def)

section \<open>Properties of the term searcher\<close>



lemma ex_le_Suc_conv: "(\<exists>k\<le>Suc n. P k) \<longleftrightarrow> P 0 \<or> (\<exists>k\<le>n. P (Suc k))"
proof
  assume "\<exists>k\<le>Suc n. P k"
  then obtain k where k: "k \<le> Suc n" "P k" by blast
  show "P 0 \<or> (\<exists>k\<le>n. P (Suc k))"
  proof (cases k)
    case 0
    then show ?thesis using k by simp
  next
    case (Suc j)
    then show ?thesis using k by auto
  qed
next
  assume "P 0 \<or> (\<exists>k\<le>n. P (Suc k))"
  then show "\<exists>k\<le>Suc n. P k" by auto
qed

text \<open>The positions of a text are \<open>0\<close> to its length; a term occurs when it matches at one.\<close>

lemma occurs_in_iff: "occurs_in p s \<longleftrightarrow> (\<exists>k\<le>length s. match_at p (drop k s))"
proof (induction s)
  case Nil
  show ?case by (cases p) simp_all
next
  case (Cons c cs)
  show ?case
    by (simp add: Cons.IH ex_le_Suc_conv)
qed

lemma finditer_Nil_iff: "finditer p i s = [] \<longleftrightarrow> \<not> occurs_in p s"
  by (induction s arbitrary: i) auto



lemma find_term_occurrences_Nil_iff:
  "t \<in> set (search_terms s) \<Longrightarrow> find_term_occurrences s text t = [] \<longleftrightarrow> \<not> occurs_in t text"
  by (simp add: find_term_occurrences_def finditer_Nil_iff)


lemma search_loop_found:
  "fst (search_loop s text ts (f, oc, n)) =
     fold List.insert (filter (\<lambda>t. find_term_occurrences s text t \<noteq> []) ts) f"
  by (induction ts arbitrary: f oc n) (simp_all add: Let_def)

lemma search_loop_occurrences:
  "fst (snd (search_loop s text ts (f, oc, n))) =
     oc @ concat (map (find_term_occurrences s text) ts)"
  by (induction ts arbitrary: f oc n) (simp_all add: Let_def)

lemma search_loop_total:
  "snd (snd (search_loop s text ts (f, oc, n))) =
     n + int (length (concat (map (find_term_occurrences s text) ts)))"
  by (induction ts arbitrary: f oc n) (simp_all add: Let_def)

lemma search_text_fields:
  "sr_terms_found (search_text s text u) =
     fold List.insert (filter (\<lambda>t. find_term_occurrences s text t \<noteq> []) (search_terms s)) []"
  "sr_occurrences (search_text s text u) = concat (map (find_term_occurrences s text) (search_terms s))"
  "sr_total_matches (search_text s text u) = int (length (sr_occurrences (search_text s text u)))"
  "sr_url (search_text s text u) = u"
  "sr_source (search_text s text u) = None"
proof -
  obtain f oc n where r: "search_loop s text (search_terms s) ([], [], 0) = (f, oc, n)"
    by (cases "search_loop s text (search_terms s) ([], [], 0)") auto
  have st: "search_text s text u = \<lparr>sr_url = u, sr_terms_found = f, sr_occurrences = oc,
          sr_total_matches = n, sr_source = None\<rparr>"
    by (simp add: search_text_def r)
  have f: "f = fold List.insert (filter (\<lambda>t. find_term_occurrences s text t \<noteq> []) (search_terms s)) []"
    using search_loop_found [of s "text" "search_terms s" "[]" "[]" "0"] by (simp add: r)
  have oc: "oc = concat (map (find_term_occurrences s text) (search_terms s))"
    using search_loop_occurrences [of s "text" "search_terms s" "[]" "[]" "0"] by (simp add: r)
  have n: "n = int (length (concat (map (find_term_occurrences s text) (search_terms s))))"
    using search_loop_total [of s "text" "search_terms s" "[]" "[]" "0"] by (simp add: r)
  show "sr_terms_found (search_text s text u) =
     fold List.insert (filter (\<lambda>t. find_term_occurrences s text t \<noteq> []) (search_terms s)) []"
    by (simp add: st f)
  show "sr_occurrences (search_text s text u) = concat (map (find_term_occurrences s text) (search_terms s))"
    by (simp add: st oc)
  show "sr_total_matches (search_text s text u) = int (length (sr_occurrences (search_text s text u)))"
    by (simp add: st oc n)
  show "sr_url (search_text s text u) = u"
    by (simp add: st)
  show "sr_source (search_text s text u) = None"
    by (simp add: st)
qed

lemma filter_occurs:
  "filter (\<lambda>t. find_term_occurrences s text t \<noteq> []) (search_terms s)
     = filter (\<lambda>t. occurs_in t text) (search_terms s)"
  by (rule filter_cong) (simp_all add: find_term_occurrences_Nil_iff)


lemma set_fold_insert: "set (fold List.insert xs f) = set xs \<union> set f"
  by (induction xs arbitrary: f) simp_all

lemma fold_insert_Nil_iff: "fold List.insert xs f = [] \<longleftrightarrow> xs = [] \<and> f = []"
proof -
  have "fold List.insert xs f = [] \<longleftrightarrow> set (fold List.insert xs f) = {}"
    by simp
  also have "\<dots> \<longleftrightarrow> xs = [] \<and> f = []"
    unfolding set_fold_insert by simp
  finally show ?thesis .
qed

lemma terms_found_Nil_iff:
  "sr_terms_found (search_text s text u) = [] \<longleftrightarrow> \<not> contains_term (search_terms s) text"
  unfolding search_text_fields(1) filter_occurs fold_insert_Nil_iff contains_term_def
  by (simp add: filter_empty_conv)








lemma page_result_terms_Nil_iff:
  "sr_terms_found (page_result s p) = [] \<longleftrightarrow> \<not> page_has_term s p"
  by (simp add: page_result_def page_has_term_def terms_found_Nil_iff)

lemma search_pages_eq:
  "search_pages s pages =
     map (page_result s) (filter (\<lambda>p. pg_text p \<noteq> [] \<and> page_has_term s p) pages)"
proof (induction pages)
  case Nil
  show ?case by simp
next
  case (Cons p ps)
  have r: "(search_text s (pg_text p) (pg_url p))
       \<lparr>sr_source := Some (case pg_source p of None \<Rightarrow> ''unknown'' | Some x \<Rightarrow> x)\<rparr>
       = page_result s p"
    by (simp add: page_result_def)
  show ?case
    unfolding search_pages.simps Let_def r Cons.IH
    by (simp add: page_result_terms_Nil_iff)
qed

lemma contains_term_Nil: "contains_term ts [] \<longleftrightarrow> [] \<in> set ts"
  by (auto simp: contains_term_def)

text \<open>
  C9, as the code has it. Every result of \<open>search_pages\<close> has a term; the results are
  those of the pages with a text that is not empty and contains a configured term, in
  the order of the pages; so \<open>pages_with_terms\<close> of the aggregation is the number of
  these pages. When the empty string is not a configured term, that is the number of
  pages that contain a configured term.
\<close>

theorem search_pages_only_pages_with_terms:
  "(\<forall>r \<in> set (search_pages s pages). sr_terms_found r \<noteq> [])
 \<and> search_pages s pages =
      map (page_result s) (filter (\<lambda>p. pg_text p \<noteq> [] \<and> page_has_term s p) pages)
 \<and> agg_lookup ''pages_with_terms'' (aggregate_results (search_pages s pages)) =
      Some (Count (int (length (filter (\<lambda>p. pg_text p \<noteq> [] \<and> page_has_term s p) pages))))
 \<and> ([] \<notin> set (search_terms s) \<longrightarrow>
      agg_lookup ''pages_with_terms'' (aggregate_results (search_pages s pages)) =
        Some (Count (int (length (filter (page_has_term s) pages)))))"
proof (intro conjI impI)
  show "\<forall>r \<in> set (search_pages s pages). sr_terms_found r \<noteq> []"
    unfolding search_pages_eq by (auto simp: page_result_terms_Nil_iff)
  show "search_pages s pages =
      map (page_result s) (filter (\<lambda>p. pg_text p \<noteq> [] \<and> page_has_term s p) pages)"
    by (rule search_pages_eq)
  obtain d where d: "aggregate_results (search_pages s pages) = Some d"
      "d ''pages_with_terms'' = Some (Count (int (length (search_pages s pages))))"
    using aggregate_results_shape [of "search_pages s pages"] by blast
  show c: "agg_lookup ''pages_with_terms'' (aggregate_results (search_pages s pages)) =
      Some (Count (int (length (filter (\<lambda>p. pg_text p \<noteq> [] \<and> page_has_term s p) pages))))"
    unfolding agg_lookup_def d(1) by (simp add: d(2)) (simp add: search_pages_eq)
  assume "[] \<notin> set (search_terms s)"
  then have "\<And>p. page_has_term s p \<Longrightarrow> pg_text p \<noteq> []"
    by (auto simp: page_has_term_def contains_term_Nil)
  then have "filter (\<lambda>p. pg_text p \<noteq> [] \<and> page_has_term s p) pages = filter (page_has_term s) pages"
    by (intro filter_cong) auto
  then show "agg_lookup ''pages_with_terms'' (aggregate_results (search_pages s pages)) =
        Some (Count (int (length (filter (page_has_term s) pages))))"
    using c by simp
qed

theorem search_pages_only_pages_with_terms_witness:
  "length (search_pages demo_searcher demo_pages) = 1
 \<and> map sr_terms_found (search_pages demo_searcher demo_pages) = [[''race equity'']]
 \<and> agg_lookup ''pages_with_terms'' (aggregate_results (search_pages demo_searcher demo_pages))
      = Some (Count 1)"
proof -
  have f: "filter (\<lambda>p. pg_text p \<noteq> [] \<and> page_has_term demo_searcher p) demo_pages
             = [demo_pages ! 0]"
    by code_simp
  have g: "filter (page_has_term demo_searcher) demo_pages = [demo_pages ! 0]"
    by code_simp
  have n: "[] \<notin> set (search_terms demo_searcher)"
    by code_simp
  have t: "sr_terms_found (page_result demo_searcher (demo_pages ! 0)) = [''race equity'']"
    by code_simp
  note a = search_pages_only_pages_with_terms [of demo_searcher demo_pages]
  have e: "search_pages demo_searcher demo_pages = [page_result demo_searcher (demo_pages ! 0)]"
    using a [THEN conjunct2, THEN conjunct1] f by simp
  have c: "agg_lookup ''pages_with_terms'' (aggregate_results (search_pages demo_searcher demo_pages))
      = Some (Count 1)"
    using a [THEN conjunct2, THEN conjunct2, THEN conjunct2] n g by simp
  show ?thesis
    using e c t by simp
qed

text \<open>
  With the empty string as a configured term, the pattern matches in the empty text as
  well, yet a page with an empty text is left out before it is searched.
\<close>

theorem search_pages_empty_term_counterexample:
  "page_has_term empty_term_searcher empty_page
 \<and> length (filter (page_has_term empty_term_searcher) [empty_page]) = 1
 \<and> search_pages empty_term_searcher [empty_page] = []
 \<and> agg_lookup ''pages_with_terms'' (aggregate_results (search_pages empty_term_searcher [empty_page]))
      = Some (Count 0)"
proof -
  have a: "page_has_term empty_term_searcher empty_page"
    by code_simp
  have b: "search_pages empty_term_searcher [empty_page] = []"
    by (simp add: empty_page_def)
  have c: "agg_lookup ''pages_with_terms'' (aggregate_results []) = Some (Count 0)"
    by (simp add: agg_lookup_def aggregate_results_def aggregated_init_def sort_set_def)
  show ?thesis
    using a b c by simp
qed

section \<open>Properties of the scraper\<close>

subsection \<open>A fetched page is on the base domain\<close>

text \<open>
  Each request block that runs to its end has a response of the network in its hands,
  and a final URL that is the URL of this response and has passed the check against
  the base domain.
\<close>

lemma finish_get_Done:
  "finish_get e bd r = Done (r', fu) \<Longrightarrow> r' = r \<and> fu = r_url r"
  by (auto simp: finish_get_def split: if_splits)

lemma from_net_I: "net e t c u a v = Inr r \<Longrightarrow> from_net e r"
  unfolding from_net_def by blast

lemma checked_get_Done:
  assumes "checked_get e bd t c v1 v2 url = (Done (r, fu), t')"
  shows "from_net e r \<and> fu = r_url r"
  using assms
  by (auto simp: checked_get_def dest!: finish_get_Done intro: from_net_I
      split: sum.splits if_splits option.splits)

lemma try_cloudscraper_Done:
  assumes "try_cloudscraper e cfg bd t url = (Done (Some r, fu, used), t')"
  shows "from_net e r \<and> fu = r_url r"
proof -
  obtain fl t1 where cg: "checked_get e bd t Cloudscraper None None url = (fl, t1)"
    by (cases "checked_get e bd t Cloudscraper None None url") auto
  show ?thesis
  proof (cases fl)
    case (Done x)
    then show ?thesis
      using assms cg checked_get_Done [of e bd t Cloudscraper None None url r fu t1]
      by (cases x) (auto simp: try_cloudscraper_def)
  next
    case Return_None
    then show ?thesis
      using assms cg by (simp add: try_cloudscraper_def)
  next
    case (Raised ex)
    obtain fl2 t2 where cg2: "checked_get e bd t1 Cloudscraper (Some False) (Some False) url = (fl2, t2)"
      by (cases "checked_get e bd t1 Cloudscraper (Some False) (Some False) url") auto
    show ?thesis
      using assms cg Raised cg2
        checked_get_Done [of e bd t1 Cloudscraper "Some False" "Some False" url r fu t2]
      by (cases ex; cases fl2) (auto simp: try_cloudscraper_def split: if_splits)
  qed
qed

lemma try_session_Done:
  assumes "try_session e cfg bd t url = (Done (r, fu), t')"
  shows "from_net e r \<and> fu = r_url r"
proof -
  obtain fl t1 where cg: "checked_get e bd t Session None (Some (sc_verify_ssl cfg)) url = (fl, t1)"
    by (cases "checked_get e bd t Session None (Some (sc_verify_ssl cfg)) url") auto
  show ?thesis
  proof (cases fl)
    case (Done x)
    then show ?thesis
      using assms cg checked_get_Done [of e bd t Session None "Some (sc_verify_ssl cfg)" url r fu t1]
      by (cases x) (auto simp: try_session_def)
  next
    case Return_None
    then show ?thesis
      using assms cg by (simp add: try_session_def)
  next
    case (Raised ex)
    show ?thesis
      using assms cg Raised
        checked_get_Done [of e bd t1 Session "Some False" "Some False" url r fu t']
      by (cases ex) (auto simp: try_session_def split: if_splits)
  qed
qed

lemma finish_retry_Done:
  assumes "finish_retry e bd fu k r2 = Done (r', fu', used')"
  shows "r' = r2 \<and> (fu' = fu \<or> (fu' = r_url r2 \<and> \<not> is_external_redirect e bd fu'))"
  using assms by (auto simp: finish_retry_def split: if_splits)

lemma bot_retry_Done:
  assumes "bot_retry e cfg bd t url r fu = (Done (r', fu', used'), t')"
  shows "fu' = fu \<or> (from_net e r' \<and> fu' = r_url r' \<and> \<not> is_external_redirect e bd fu')"
proof (cases "net e t Cloudscraper url True None")
  case (Inr r2)
  then have "from_net e r2"
    by (rule from_net_I)
  then show ?thesis
    using assms Inr finish_retry_Done [of e bd fu False r2 r' fu' used']
    by (auto simp: bot_retry_def)
next
  case (Inl ex)
  show ?thesis
  proof (cases "net e (t + 1) Cloudscraper url True (Some False)")
    case (Inr r3)
    then have "from_net e r3"
      by (rule from_net_I)
    then show ?thesis
      using assms Inl Inr finish_retry_Done [of e bd fu True r3 r' fu' used']
      by (cases ex) (auto simp: bot_retry_def split: if_splits)
  next
    case inl2: (Inl ex2)
    then show ?thesis
      using assms Inl by (cases ex) (auto simp: bot_retry_def split: if_splits)
  qed
qed

lemma pg_url_make_page [simp]: "pg_url (make_page e bd r fu html) = fu"
  by (simp add: make_page_def Let_def)


lemma scrape_try_Done:
  assumes st: "scrape_try e cfg self bd t url cf = (Done pg, t')"
    and bd: "truthy bd"
  shows "\<not> is_external_redirect e bd (pg_url pg) \<and> (\<exists>r. from_net e r \<and> pg_url pg = r_url r)"
proof -
  define A where "A = (if cf \<and> cloudscraper_session self
            then try_cloudscraper e cfg bd t url
            else (Done (None, url, False), t))"
  obtain flA t1 where A: "A = (flA, t1)"
    by (cases A) auto
  have st1: "(case A of
        (Return_None, t1) \<Rightarrow> (Return_None, t1)
      | (Raised ex, t1) \<Rightarrow> (Raised ex, t1)
      | (Done (response, final_url0, used_cloudscraper), t1) \<Rightarrow>
          (case (case response of
                   Some r \<Rightarrow> (Done (r, final_url0), t1)
                 | None \<Rightarrow> try_session e cfg bd t1 url) of
             (Return_None, t2) \<Rightarrow> (Return_None, t2)
           | (Raised ex, t2) \<Rightarrow> (Raised ex, t2)
           | (Done (r, final_url), t2) \<Rightarrow>
               if truthy bd \<and> is_external_redirect e bd final_url
               then (Return_None, t2)
               else
                 let response_text = (case r_text r of Some s \<Rightarrow> s | None \<Rightarrow> []);
                     is_bot_protection = is_bot_protection_page e response_text
                 in (case (if is_bot_protection \<and> \<not> used_cloudscraper \<and> cloudscraper_session self
                           then bot_retry e cfg bd t2 url r final_url
                           else (Done (r, final_url, used_cloudscraper), t2)) of
                       (Return_None, t3) \<Rightarrow> (Return_None, t3)
                     | (Raised ex, t3) \<Rightarrow> (Raised ex, t3)
                     | (Done (r', final_url', used'), t3) \<Rightarrow>
                         (case html_of r' of
                            None \<Rightarrow> (Return_None, t3)
                          | Some html_content \<Rightarrow>
                              (Done (make_page e bd r' final_url' html_content), t3))))) = (Done pg, t')"
    using st unfolding scrape_try_def A_def .
  obtain ro fu0 used where flA: "flA = Done (ro, fu0, used)"
    using st1 unfolding A by (cases flA) auto
  define B where "B = (case ro of Some r \<Rightarrow> (Done (r, fu0), t1)
                 | None \<Rightarrow> try_session e cfg bd t1 url)"
  obtain flB t2 where B: "B = (flB, t2)"
    by (cases B) auto
  have st2: "(case B of
             (Return_None, t2) \<Rightarrow> (Return_None, t2)
           | (Raised ex, t2) \<Rightarrow> (Raised ex, t2)
           | (Done (r, final_url), t2) \<Rightarrow>
               if truthy bd \<and> is_external_redirect e bd final_url
               then (Return_None, t2)
               else
                 let response_text = (case r_text r of Some s \<Rightarrow> s | None \<Rightarrow> []);
                     is_bot_protection = is_bot_protection_page e response_text
                 in (case (if is_bot_protection \<and> \<not> used \<and> cloudscraper_session self
                           then bot_retry e cfg bd t2 url r final_url
                           else (Done (r, final_url, used), t2)) of
                       (Return_None, t3) \<Rightarrow> (Return_None, t3)
                     | (Raised ex, t3) \<Rightarrow> (Raised ex, t3)
                     | (Done (r', final_url', used'), t3) \<Rightarrow>
                         (case html_of r' of
                            None \<Rightarrow> (Return_None, t3)
                          | Some html_content \<Rightarrow>
                              (Done (make_page e bd r' final_url' html_content), t3)))) = (Done pg, t')"
    using st1 unfolding A flA B_def by simp
  obtain r fu where flB: "flB = Done (r, fu)"
    using st2 unfolding B by (cases flB) auto
  have rfu: "from_net e r \<and> fu = r_url r"
  proof (cases ro)
    case None
    then show ?thesis
      using B flB try_session_Done [of e cfg bd t1 url r fu t2] by (simp add: B_def)
  next
    case (Some r0)
    then have eq: "r0 = r" "fu0 = fu"
      using B flB by (simp_all add: B_def)
    have "A = try_cloudscraper e cfg bd t url"
      using A flA Some by (auto simp: A_def split: if_splits)
    then show ?thesis
      using A flA Some eq try_cloudscraper_Done [of e cfg bd t url r fu used t1] by simp
  qed
  have ext: "\<not> is_external_redirect e bd fu"
    using st2 bd unfolding B flB by (auto split: if_splits)
  define R where "R = (if is_bot_protection_page e (case r_text r of Some s \<Rightarrow> s | None \<Rightarrow> [])
                           \<and> \<not> used \<and> cloudscraper_session self
                           then bot_retry e cfg bd t2 url r fu
                           else (Done (r, fu, used), t2))"
  obtain flR t3 where R: "R = (flR, t3)"
    by (cases R) auto
  have st3: "(case R of
                       (Return_None, t3) \<Rightarrow> (Return_None, t3)
                     | (Raised ex, t3) \<Rightarrow> (Raised ex, t3)
                     | (Done (r', final_url', used'), t3) \<Rightarrow>
                         (case html_of r' of
                            None \<Rightarrow> (Return_None, t3)
                          | Some html_content \<Rightarrow>
                              (Done (make_page e bd r' final_url' html_content), t3))) = (Done pg, t')"
    using st2 ext unfolding B flB R_def by (simp add: Let_def)
  obtain r' fu' used' where flR: "flR = Done (r', fu', used')"
    using st3 unfolding R by (cases flR) auto
  have pg: "pg_url pg = fu'"
    using st3 unfolding R flR by (auto split: option.splits)
  have "fu' = fu \<or> (from_net e r' \<and> fu' = r_url r' \<and> \<not> is_external_redirect e bd fu')"
    using R flR bot_retry_Done [of e cfg bd t2 url r fu r' fu' used' t3]
    by (auto simp: R_def split: if_splits)
  then show ?thesis
    using rfu ext pg by auto
qed

lemma last_resort_Some:
  assumes "last_resort e cfg bd t url msg = (Some pg, t')" and "truthy bd"
  shows "\<not> is_external_redirect e bd (pg_url pg) \<and> (\<exists>r. from_net e r \<and> pg_url pg = r_url r)"
proof (cases "net e t Session url True (Some False)")
  case (Inl ex)
  then show ?thesis
    using assms by (auto simp: last_resort_def split: if_splits)
next
  case (Inr r)
  then have "from_net e r"
    by (rule from_net_I)
  then show ?thesis
    using assms Inr by (auto simp: last_resort_def split: if_splits option.splits)
qed

lemma scrape_page_None:
  assumes "scrape_page e cfg self t url cf add bd = (None, self', t')"
  shows "self' = self"
proof -
  obtain fl t1 where st: "scrape_try e cfg self bd t url cf = (fl, t1)"
    by (cases "scrape_try e cfg self bd t url cf") auto
  show ?thesis
  proof (cases fl)
    case (Raised ex)
    show ?thesis
    proof (cases ex)
      case (SSLError msg)
      obtain po t2 where lr: "last_resort e cfg bd t1 url msg = (po, t2)"
        by (cases "last_resort e cfg bd t1 url msg") auto
      show ?thesis
        using assms st Raised SSLError lr
        by (cases po) (auto simp: scrape_page_def split: if_splits)
    qed (use assms st Raised in \<open>auto simp: scrape_page_def split: if_splits\<close>)
  qed (use assms st in \<open>auto simp: scrape_page_def split: if_splits\<close>)
qed

lemma scrape_page_Some:
  assumes "scrape_page e cfg self t url cf add bd = (Some pg, self', t')"
  shows "url \<notin> visited_urls self \<and> self' = record_page self url pg add
       \<and> (truthy bd \<longrightarrow> \<not> is_external_redirect e bd (pg_url pg)
                        \<and> (\<exists>r. from_net e r \<and> pg_url pg = r_url r))"
proof -
  obtain fl t1 where st: "scrape_try e cfg self bd t url cf = (fl, t1)"
    by (cases "scrape_try e cfg self bd t url cf") auto
  show ?thesis
  proof (cases fl)
    case (Done pg0)
    then show ?thesis
      using assms st scrape_try_Done [of e cfg self bd t url cf pg t1]
      by (auto simp: scrape_page_def split: if_splits)
  next
    case Return_None
    then show ?thesis
      using assms st by (auto simp: scrape_page_def split: if_splits)
  next
    case (Raised ex)
    show ?thesis
    proof (cases ex)
      case (SSLError msg)
      obtain po t2 where lr: "last_resort e cfg bd t1 url msg = (po, t2)"
        by (cases "last_resort e cfg bd t1 url msg") auto
      show ?thesis
        using assms st Raised SSLError lr last_resort_Some [of e cfg bd t1 url msg pg t2]
        by (cases po) (auto simp: scrape_page_def split: if_splits)
    qed (use assms st Raised in \<open>auto simp: scrape_page_def split: if_splits\<close>)
  qed
qed


lemma scrape_page_cases:
  obtains (none) t' where "scrape_page e cfg self t url cf add bd = (None, self, t')"
  | (some) pg t' where "scrape_page e cfg self t url cf add bd = (Some pg, record_page self url pg add, t')"
      "url \<notin> visited_urls self"
      "truthy bd \<Longrightarrow> \<not> is_external_redirect e bd (pg_url pg)"
      "truthy bd \<Longrightarrow> \<exists>r. from_net e r \<and> pg_url pg = r_url r"
proof -
  obtain po self' t' where eq: "scrape_page e cfg self t url cf add bd = (po, self', t')"
    by (cases "scrape_page e cfg self t url cf add bd") auto
  show thesis
  proof (cases po)
    case None
    then show ?thesis
      using eq scrape_page_None [of e cfg self t url cf add bd self' t'] none by simp
  next
    case (Some pg)
    then show ?thesis
      using eq scrape_page_Some [of e cfg self t url cf add bd pg self' t'] some [of pg t'] by simp
  qed
qed

lemma on_domain:
  assumes "net_ok e" and "from_net e r" and "d \<noteq> []"
    and "\<not> is_external_redirect e (Some d) (r_url r)"
  shows "netloc_of e (r_url r) = Some d"
proof -
  have "urlparse (host_ok e) (r_url r) \<noteq> None"
    using assms(1,2) unfolding net_ok_def from_net_def by blast
  then show ?thesis
    using assms(3,4)
    by (auto simp: is_external_redirect_def truthy_def netloc_of_def split: option.splits)
qed

text \<open>
  The \<open>url\<close> field is checked on every path. Let the base domain \<open>d\<close> be not empty, and
  let every response of the network carry a URL that \<open>urlparse\<close> accepts. Then
  \<open>scrape_page\<close> returns \<open>None\<close> and leaves \<open>scraped_pages\<close> as it is, or it returns a page
  whose \<open>url\<close> field has the network location \<open>d\<close>, and this page is what it appends
  to \<open>scraped_pages\<close> when asked to.
\<close>

lemma scrape_page_url_on_domain:
  assumes "net_ok e" and "d \<noteq> []"
  shows "case scrape_page e cfg self t url use_cloudscraper_first add (Some d) of
           (None, self', t') \<Rightarrow> scraped_pages self' = scraped_pages self
         | (Some pg, self', t') \<Rightarrow>
             netloc_of e (pg_url pg) = Some d
             \<and> scraped_pages self' =
                 (if add then scraped_pages self @ [pg] else scraped_pages self)"
proof (rule scrape_page_cases [where e = e and cfg = cfg and self = self and t = t and url = url
      and cf = use_cloudscraper_first and add = add and bd = "Some d"])
  fix t'
  assume "scrape_page e cfg self t url use_cloudscraper_first add (Some d) = (None, self, t')"
  then show ?thesis
    by simp
next
  fix pg t'
  assume eq: "scrape_page e cfg self t url use_cloudscraper_first add (Some d)
                = (Some pg, record_page self url pg add, t')"
    and ext: "truthy (Some d) \<Longrightarrow> \<not> is_external_redirect e (Some d) (pg_url pg)"
    and net: "truthy (Some d) \<Longrightarrow> \<exists>r. from_net e r \<and> pg_url pg = r_url r"
  have tr: "truthy (Some d)"
    using assms(2) by (simp add: truthy_def)
  obtain r where r: "from_net e r" "pg_url pg = r_url r"
    using net [OF tr] by blast
  have "netloc_of e (pg_url pg) = Some d"
    using on_domain [OF assms(1) r(1) assms(2)] ext [OF tr] r(2) by simp
  then show ?thesis
    using eq by (simp add: record_page_def)
qed

text \<open>
  On the small site the page \<open>/old\<close>, which redirects to \<open>/b\<close>, is returned under the URL
  of \<open>/b\<close>; the page \<open>/out\<close>, which redirects to another host, is not returned.
\<close>

lemma parses_I: "map_option netloc (urlparse h u) = Some d \<Longrightarrow> \<exists>y. urlparse h u = Some y"
  by auto

lemma demo_urls_netloc:
  "map_option netloc (urlparse any_host ''https://ex.org/'') = Some ''ex.org''"
  "map_option netloc (urlparse any_host ''https://ex.org/b'') = Some ''ex.org''"
  "map_option netloc (urlparse any_host ''https://ex.org/old'') = Some ''ex.org''"
  "map_option netloc (urlparse any_host ''https://ex.org/out'') = Some ''ex.org''"
  "map_option netloc (urlparse any_host ''https://other.org/'') = Some ''other.org''"
  by code_simp+

lemmas demo_urls_parse = demo_urls_netloc [THEN parses_I]

lemma demo_net_ok: "net_ok demo_env"
  unfolding net_ok_def
  by (auto simp: demo_env_def demo_net_def demo_response_def demo_urls_parse split: if_splits)

lemma scrape_page_url_on_domain_demo:
  "fst (scrape_page demo_env demo_config demo_scraper 0 ''https://ex.org/old'' False True
          (Some ''ex.org''))
     = Some \<lparr>pg_url = ''https://ex.org/b'', pg_text = ''b'', pg_links = [''https://ex.org/c'', ''https://ex.org/old''],
             pg_status_code = 200, pg_content_length = 1, pg_source = None\<rparr>
   \<and> netloc_of demo_env ''https://ex.org/b'' = Some ''ex.org''
   \<and> fst (scrape_page demo_env demo_config demo_scraper 0 ''https://ex.org/out'' False True
          (Some ''ex.org'')) = None"
proof -
  have v: "fst (scrape_page demo_env demo_config demo_scraper 0 ''https://ex.org/old'' False True
          (Some ''ex.org''))
     = Some \<lparr>pg_url = ''https://ex.org/b'', pg_text = ''b'', pg_links = [''https://ex.org/c'', ''https://ex.org/old''],
             pg_status_code = 200, pg_content_length = 1, pg_source = None\<rparr>"
    by code_simp
  have w: "fst (scrape_page demo_env demo_config demo_scraper 0 ''https://ex.org/out'' False True
          (Some ''ex.org'')) = None"
    by code_simp
  have d: "''ex.org'' \<noteq> []"
    by simp
  show ?thesis
    using scrape_page_url_on_domain [OF demo_net_ok d, where cfg = demo_config
            and self = demo_scraper and t = 0 and url = "''https://ex.org/old''"
            and use_cloudscraper_first = False and add = True] v w
    by (cases "scrape_page demo_env demo_config demo_scraper 0 ''https://ex.org/old'' False True
          (Some ''ex.org'')") auto
qed

text \<open>
  C1 fails on the path of the retry against bot protection. The session gets the
  challenge page of \<open>https://ex.org/p\<close>, and the retry with cloudscraper is redirected
  to \<open>evil.org\<close>, which answers 404. \<open>raise_for_status\<close> raises after \<open>response\<close> has
  been assigned, and the handler tests \<open>e.response\<close> for truth, which is false for
  every response with an error status; so no check of the host is made, and the page
  that is returned and appended to \<open>scraped_pages\<close> has the URL of \<open>ex.org\<close> with the
  text and the status code of the response of \<open>evil.org\<close>.
\<close>

theorem scrape_page_foreign_content:
  "bot_net 1 Cloudscraper ''https://ex.org/p'' True None
     = Inr (demo_response 404 ''https://evil.org/x'' [] ''EVIL'')
   \<and> netloc_of bot_env ''https://evil.org/x'' = Some ''evil.org''
   \<and> fst (scrape_page bot_env demo_config bot_scraper 0 ''https://ex.org/p'' False True
            (Some ''ex.org''))
       = Some \<lparr>pg_url = ''https://ex.org/p'', pg_text = ''EVIL'', pg_links = [],
               pg_status_code = 404, pg_content_length = 4, pg_source = None\<rparr>
   \<and> scraped_pages (fst (snd (scrape_page bot_env demo_config bot_scraper 0 ''https://ex.org/p''
            False True (Some ''ex.org''))))
       = [\<lparr>pg_url = ''https://ex.org/p'', pg_text = ''EVIL'', pg_links = [],
           pg_status_code = 404, pg_content_length = 4, pg_source = None\<rparr>]"
  by code_simp
section \<open>Properties of the crawl\<close>


subsection \<open>Which links are enqueued\<close>

text \<open>The loop over the links of a page is a filter.\<close>

lemma enqueue_links_eq:
  "enqueue_links cfg visited links depth url_queue =
     url_queue @ map (\<lambda>link. (link, depth + 1))
                   (filter (\<lambda>link. link \<notin> visited \<and> \<not> should_skip_url cfg link) links)"
  by (induction links arbitrary: url_queue) simp_all

text \<open>
  C2, as the code has it. The links of a fetched page that are appended to the queue
  are those that are not yet visited and match no skip pattern: a link that is not yet
  visited and matches a skip pattern is dropped, not enqueued. On the small site the
  link \<open>/files/menu\<close> matches the pattern \<open>/files/\<close> and is left out, although it is not
  visited.
\<close>

theorem enqueue_links_drops_skip_pattern:
  "enqueue_links cfg visited links depth url_queue =
     url_queue @ map (\<lambda>link. (link, depth + 1))
                   (filter (\<lambda>link. link \<notin> visited \<and> \<not> should_skip_url cfg link) links)
   \<and> should_skip_url demo_config ''https://ex.org/files/menu''
   \<and> enqueue_links demo_config {} [''https://ex.org/files/menu'', ''https://ex.org/about''] 0 []
       = [(''https://ex.org/about'', 1)]"
proof -
  have a: "should_skip_url demo_config ''https://ex.org/files/menu''"
    by code_simp
  have b: "enqueue_links demo_config {} [''https://ex.org/files/menu'', ''https://ex.org/about''] 0 []
       = [(''https://ex.org/about'', 1)]"
    by code_simp
  show ?thesis
    using a b enqueue_links_eq by blast
qed

subsection \<open>The adaptive delay\<close>

lemma das_fields [simp]:
  "visited_urls (delay_after_success s) = visited_urls s"
  "scraped_pages (delay_after_success s) = scraped_pages s"
  "min_delay (delay_after_success s) = min_delay s"
  "max_delay (delay_after_success s) = max_delay s"
  "visited_urls (delay_after_failure s) = visited_urls s"
  "scraped_pages (delay_after_failure s) = scraped_pages s"
  "min_delay (delay_after_failure s) = min_delay s"
  "max_delay (delay_after_failure s) = max_delay s"
  by (simp_all add: delay_after_success_def delay_after_failure_def Let_def)



text \<open>
  The adaptive delay reads and writes five attributes of the scraper, and
  \<open>scrape_page\<close> leaves them alone. So a step of the loop leaves these attributes as they
  are when it fetches nothing, and applies the rule for a success or the rule for a
  failure to them when it has called \<open>scrape_page\<close>.
\<close>

lemma delay_state_record_page [simp]:
  "delay_state (record_page s u pg add) = delay_state s"
  by (simp add: delay_state_def record_page_def)













lemma min_delay_successes [simp]:
  "min_delay ((delay_after_success ^^ n) s) = min_delay s"
  by (induction n) simp_all





subsection \<open>Fetches and collected pages of a crawl\<close>









end
